theory Spec2Isabelle
  imports Main "HOL-Library.Product_Lexorder"
begin

section \<open>Tables of possibly merged cells (dolphin_doc_lib/base/table.py)\<close>

text \<open>
  The module defines \<^verbatim>\<open>Direction\<close>, \<^verbatim>\<open>Cell\<close> and \<^verbatim>\<open>Table\<close>. Cells, tables and
  paragraphs are mutable Python objects that refer to each other, so the model keeps
  them in a store indexed by object identity (a natural number) and every method takes
  the store and returns the store it leaves behind, together with either the value
  returned or the exception raised.
\<close>

subsection \<open>Exceptions and Python list indexing\<close>

text \<open>
  The four \<^verbatim>\<open>ValueError\<close>s of the module are kept apart by constructor; the overlap
  error carries the two numbers its message is formatted from. \<^verbatim>\<open>AssertionError\<close> is
  what a failing \<^verbatim>\<open>assert\<close> raises and \<^verbatim>\<open>IndexError\<close> what a list raises for an
  index out of range.
\<close>

datatype error =
    NotInside                \<comment> \<open>ValueError("Cell is not inside the table")\<close>
  | Occupied int int         \<comment> \<open>ValueError("Point (row = {}, col = {}) already occupied")\<close>
  | NotThisTable             \<comment> \<open>ValueError("The cell parent is not this table")\<close>
  | HasParent                \<comment> \<open>ValueError("Should not append a paragraph that already has a parent")\<close>
  | AssertionError
  | IndexError

fun is_ValueError :: "error \<Rightarrow> bool" where
  "is_ValueError NotInside = True"
| "is_ValueError (Occupied row col) = True"
| "is_ValueError NotThisTable = True"
| "is_ValueError HasParent = True"
| "is_ValueError AssertionError = False"
| "is_ValueError IndexError = False"

text \<open>
  \<^verbatim>\<open>xs[i]\<close> on a Python list: a negative index counts from the end, anything outside
  \<^verbatim>\<open>-len(xs) .. len(xs)-1\<close> raises. \<open>py_index\<close> resolves the index to a position.
\<close>

definition py_index :: "'a list \<Rightarrow> int \<Rightarrow> error + nat" where
  "py_index xs i =
     (if 0 \<le> i \<and> i < int (length xs) then Inr (nat i)
      else if i < 0 \<and> - int (length xs) \<le> i then Inr (nat (int (length xs) + i))
      else Inl IndexError)"

definition getitem :: "'a list \<Rightarrow> int \<Rightarrow> error + 'a" where
  "getitem xs i = (case py_index xs i of Inl e \<Rightarrow> Inl e | Inr j \<Rightarrow> Inr (xs ! j))"

text \<open>\<^verbatim>\<open>board[row][col]\<close> and \<^verbatim>\<open>board[row][col] = v\<close> on a list of lists.\<close>

definition board_get :: "int list list \<Rightarrow> int \<Rightarrow> int \<Rightarrow> error + int" where
  "board_get b row col =
     (case getitem b row of Inl e \<Rightarrow> Inl e | Inr line \<Rightarrow> getitem line col)"

definition board_set :: "int list list \<Rightarrow> int \<Rightarrow> int \<Rightarrow> int \<Rightarrow> error + int list list" where
  "board_set b row col v =
     (case py_index b row of
        Inl e \<Rightarrow> Inl e
      | Inr r \<Rightarrow>
          (case py_index (b ! r) col of
             Inl e \<Rightarrow> Inl e
           | Inr k \<Rightarrow> Inr (b[r := (b ! r)[k := v]])))"

subsection \<open>Rect\<close>

text \<open>
  Modelled from the spec: \<^verbatim>\<open>dolphin_doc_lib/base/rect.py\<close> (class \<^verbatim>\<open>Rect\<close>) is not part
  of the sources at hand. The spec gives a rectangle the integers left, top, width and
  height, the derived \<open>right = left + width - 1\<close>, \<open>bottom = top + height - 1\<close> and
  \<open>area = width * height\<close>, a containment test between rectangles that is inclusive of
  the boundary, and a containment test for a point.
\<close>

record Rect =
  left :: int
  top_rect :: int
  width :: int
  height :: int

text \<open>
  Modelled from the spec: the derived edges and the area of \<^verbatim>\<open>Rect\<close>
  (\<^verbatim>\<open>right()\<close>, \<^verbatim>\<open>bottom()\<close>, \<^verbatim>\<open>area()\<close>), whose code is missing.
\<close>

definition right :: "'a Rect_scheme \<Rightarrow> int" where
  "right r = left r + width r - 1"

definition bottom :: "'a Rect_scheme \<Rightarrow> int" where
  "bottom r = top_rect r + height r - 1"

definition area :: "'a Rect_scheme \<Rightarrow> int" where
  "area r = width r * height r"

text \<open>
  Modelled from the spec: \<^verbatim>\<open>Rect.contains(other)\<close> and \<^verbatim>\<open>Rect.contains_point(x, y)\<close>,
  whose code is missing: the other rectangle, or the point, lies within this one, the
  boundary included.
\<close>

definition contains :: "'a Rect_scheme \<Rightarrow> 'b Rect_scheme \<Rightarrow> bool" where
  "contains r other \<longleftrightarrow>
     left r \<le> left other \<and> top_rect r \<le> top_rect other \<and>
     right other \<le> right r \<and> bottom other \<le> bottom r"

definition contains_point :: "'a Rect_scheme \<Rightarrow> int \<Rightarrow> int \<Rightarrow> bool" where
  "contains_point r x y \<longleftrightarrow>
     left r \<le> x \<and> x \<le> right r \<and> top_rect r \<le> y \<and> y \<le> bottom r"

subsection \<open>Direction, Cell, Table and the store\<close>

datatype Direction = UP | DOWN | LEFT | RIGHT

text \<open>
  Modelled from the spec: \<^verbatim>\<open>dolphin_doc_lib/base/text.py\<close> (class \<^verbatim>\<open>TextParagraph\<close>) is
  not part of the sources at hand; the module only reads and writes a paragraph's
  \<^verbatim>\<open>parent\<close>, the cell that owns it or \<^verbatim>\<open>None\<close>.
\<close>

record TextParagraph =
  paragraph_parent :: "nat option"

text \<open>
  \<^verbatim>\<open>class Cell(Rect[int])\<close>: the rectangle's fields, \<^verbatim>\<open>parent\<close> (a table or \<^verbatim>\<open>None\<close>) and
  \<^verbatim>\<open>_paragraphs\<close>. \<^verbatim>\<open>class Table(Rect[int])\<close>: the rectangle's fields, \<^verbatim>\<open>parent\<close>
  (never assigned anything but \<^verbatim>\<open>None\<close>), \<^verbatim>\<open>_cells\<close>, \<^verbatim>\<open>_board\<close> and
  \<^verbatim>\<open>_occupied_area\<close>. References to objects are their addresses in the store.
\<close>

record Cell = Rect +
  parent :: "nat option"
  paragraphs :: "nat list"

record Table = Rect +
  table_parent :: "nat option"
  cells :: "nat list"
  occupied_area :: int
  board :: "int list list"

record heap =
  cell_at :: "nat \<Rightarrow> Cell"
  table_at :: "nat \<Rightarrow> Table"
  paragraph_at :: "nat \<Rightarrow> TextParagraph"

definition UNOCCUPIED_CELL :: int where
  "UNOCCUPIED_CELL = - 1"

text \<open>
  \<^verbatim>\<open>Cell.__init__(rect)\<close> and \<^verbatim>\<open>Table.__init__(row_num, col_num)\<close>, as the values of the
  objects they initialise; \<^verbatim>\<open>Rect.__init__(left, top, width, height)\<close>, whose code is
  missing, is taken to store its four arguments, as the spec has the constructors
  initialise the geometry. \<^verbatim>\<open>range(n)\<close> is empty for a negative \<^verbatim>\<open>n\<close>, as \<open>nat n\<close>
  is 0.
\<close>

definition Cell_init :: "Rect \<Rightarrow> Cell" where
  "Cell_init rect =
     \<lparr>left = left rect, top_rect = top_rect rect, width = width rect, height = height rect,
      parent = None, paragraphs = []\<rparr>"

definition Table_init :: "int \<Rightarrow> int \<Rightarrow> Table" where
  "Table_init row_num col_num =
     \<lparr>left = 0, top_rect = 0, width = col_num, height = row_num,
      table_parent = None, cells = [], occupied_area = 0,
      board = replicate (nat row_num) (replicate (nat col_num) UNOCCUPIED_CELL)\<rparr>"

subsection \<open>Cell.append_paragraph\<close>

text \<open>
  \<^verbatim>\<open>if paragraph.parent:\<close> tests the truth value of the parent; a cell object is true
  (the spec gives \<^verbatim>\<open>Rect\<close> no length and no truth value of its own), \<^verbatim>\<open>None\<close> is false.
  The method returns \<^verbatim>\<open>self\<close>.
\<close>

definition append_paragraph :: "nat \<Rightarrow> nat \<Rightarrow> heap \<Rightarrow> (error + nat) \<times> heap" where
  "append_paragraph self paragraph h =
     (if paragraph_parent (paragraph_at h paragraph) \<noteq> None then (Inl HasParent, h)
      else
        let h1 = h\<lparr>paragraph_at :=
                    (paragraph_at h)(paragraph :=
                       (paragraph_at h paragraph)\<lparr>paragraph_parent := Some self\<rparr>)\<rparr>;
            h2 = h1\<lparr>cell_at :=
                    (cell_at h1)(self :=
                       (cell_at h1 self)\<lparr>paragraphs := paragraphs (cell_at h1 self) @ [paragraph]\<rparr>)\<rparr>
        in (Inr self, h2))"

subsection \<open>Table._fill_board\<close>

text \<open>
  The two nested loops write \<open>idx\<close> at every coordinate of the cell, rows outermost;
  \<^verbatim>\<open>range(a, b + 1)\<close> is the interval \<open>[a..b]\<close>. An \<^verbatim>\<open>IndexError\<close> leaves the loops with
  what was written so far. The area is added after the loops.
\<close>

fun fill_cols :: "int \<Rightarrow> int list \<Rightarrow> int \<Rightarrow> int list list \<Rightarrow> error option \<times> int list list" where
  "fill_cols row [] idx b = (None, b)"
| "fill_cols row (col # cols) idx b =
     (case board_set b row col idx of
        Inl e \<Rightarrow> (Some e, b)
      | Inr b' \<Rightarrow> fill_cols row cols idx b')"

fun fill_rows :: "int list \<Rightarrow> int list \<Rightarrow> int \<Rightarrow> int list list \<Rightarrow> error option \<times> int list list" where
  "fill_rows [] cols idx b = (None, b)"
| "fill_rows (row # rows) cols idx b =
     (case fill_cols row cols idx b of
        (Some e, b') \<Rightarrow> (Some e, b')
      | (None, b') \<Rightarrow> fill_rows rows cols idx b')"

definition fill_board :: "Cell \<Rightarrow> int \<Rightarrow> Table \<Rightarrow> error option \<times> Table" where
  "fill_board cell idx self =
     (case fill_rows [top_rect cell..bottom cell] [left cell..right cell] idx (board self) of
        (Some e, b') \<Rightarrow> (Some e, self\<lparr>board := b'\<rparr>)
      | (None, b') \<Rightarrow>
          (None, self\<lparr>board := b', occupied_area := occupied_area self + area cell\<rparr>))"

subsection \<open>Table.add_cell\<close>

text \<open>The overlap check: the same two loops, raising at the first coordinate that is taken.\<close>

fun check_cols :: "int list list \<Rightarrow> int \<Rightarrow> int list \<Rightarrow> error option" where
  "check_cols b row [] = None"
| "check_cols b row (col # cols) =
     (case board_get b row col of
        Inl e \<Rightarrow> Some e
      | Inr v \<Rightarrow> if v \<noteq> UNOCCUPIED_CELL then Some (Occupied row col) else check_cols b row cols)"

fun check_rows :: "int list list \<Rightarrow> int list \<Rightarrow> int list \<Rightarrow> error option" where
  "check_rows b [] cols = None"
| "check_rows b (row # rows) cols =
     (case check_cols b row cols of
        Some e \<Rightarrow> Some e
      | None \<Rightarrow> check_rows b rows cols)"

text \<open>\<^verbatim>\<open>for i, _cell in enumerate(self._cells): self._fill_board(_cell, i)\<close>\<close>

fun fill_all :: "(nat \<Rightarrow> Cell) \<Rightarrow> (nat \<times> nat) list \<Rightarrow> Table \<Rightarrow> error option \<times> Table" where
  "fill_all cs [] self = (None, self)"
| "fill_all cs ((i, c) # ics) self =
     (case fill_board (cs c) (int i) self of
        (Some e, self') \<Rightarrow> (Some e, self')
      | (None, self') \<Rightarrow> fill_all cs ics self')"

text \<open>
  The sort key \<^verbatim>\<open>(cell.top(), cell.left())\<close> is a pair, ordered lexicographically;
  \<^verbatim>\<open>list.sort\<close> is stable, as \<open>sort_key\<close> is.
\<close>

definition cell_key :: "(nat \<Rightarrow> Cell) \<Rightarrow> nat \<Rightarrow> int \<times> int" where
  "cell_key cs c = (top_rect (cs c), left (cs c))"

definition add_cell :: "nat \<Rightarrow> nat \<Rightarrow> heap \<Rightarrow> (error + nat) \<times> heap" where
  "add_cell self cell h =
     (let T = table_at h self; C = cell_at h cell in
      if \<not> contains T C then (Inl NotInside, h)
      else
        case check_rows (board T) [top_rect C..bottom C] [left C..right C] of
          Some e \<Rightarrow> (Inl e, h)
        | None \<Rightarrow>
            let h1 = h\<lparr>cell_at := (cell_at h)(cell := C\<lparr>parent := Some self\<rparr>)\<rparr>;
                T1 = T\<lparr>cells := cells T @ [cell]\<rparr>;
                T2 = T1\<lparr>cells := sort_key (cell_key (cell_at h1)) (cells T1)\<rparr>;
                T3 = T2\<lparr>occupied_area := 0\<rparr>;
                (r, T4) = fill_all (cell_at h1) (List.enumerate 0 (cells T3)) T3;
                h2 = h1\<lparr>table_at := (table_at h1)(self := T4)\<rparr>
            in (case r of Some e \<Rightarrow> (Inl e, h2) | None \<Rightarrow> (Inr self, h2)))"

subsection \<open>Table.ready_to_move and Table.move\<close>

definition ready_to_move :: "Table \<Rightarrow> bool" where
  "ready_to_move self \<longleftrightarrow> occupied_area self = area self"

text \<open>The probe coordinate \<open>(x, y)\<close> of the \<^verbatim>\<open>if/elif/else\<close> chain.\<close>

fun probe :: "Cell \<Rightarrow> Direction \<Rightarrow> int \<times> int" where
  "probe cell UP = (left cell, top_rect cell - 1)"
| "probe cell DOWN = (left cell, bottom cell + 1)"
| "probe cell LEFT = (left cell - 1, top_rect cell)"
| "probe cell RIGHT = (right cell + 1, top_rect cell)"

text \<open>
  \<^verbatim>\<open>move\<close> assigns nothing: it returns a cell, \<^verbatim>\<open>None\<close> or raises, and the store is the
  one it was given. \<^verbatim>\<open>cell.parent is not self\<close> compares identities.
\<close>

definition move :: "nat \<Rightarrow> nat \<Rightarrow> Direction \<Rightarrow> heap \<Rightarrow> error + nat option" where
  "move self cell direction h =
     (let T = table_at h self; C = cell_at h cell in
      if \<not> ready_to_move T then Inl AssertionError
      else if parent C \<noteq> Some self then Inl NotThisTable
      else
        case probe C direction of
          (x, y) \<Rightarrow>
            if contains_point T x y then
              (case board_get (board T) y x of
                 Inl e \<Rightarrow> Inl e
               | Inr idx \<Rightarrow>
                   (case getitem (cells T) idx of
                      Inl e \<Rightarrow> Inl e
                    | Inr c \<Rightarrow> Inr (Some c)))
            else Inr None)"

subsection \<open>Cell.move\<close>

text \<open>
  \<^verbatim>\<open>assert self.parent\<close>, then the parent table's \<^verbatim>\<open>move\<close>; a table object is true,
  \<^verbatim>\<open>None\<close> is false.
\<close>

definition Cell_move :: "nat \<Rightarrow> Direction \<Rightarrow> heap \<Rightarrow> error + nat option" where
  "Cell_move self direction h =
     (case parent (cell_at h self) of
        None \<Rightarrow> Inl AssertionError
      | Some table \<Rightarrow> move table self direction h)"

subsection \<open>A store to run the methods on\<close>

text \<open>
  Every table is a fresh \<^verbatim>\<open>Table(2, 2)\<close>, every paragraph is unowned, and the cells are
  fresh: cell 0 is the merged top row, cells 1 and 2 are the two cells of the bottom row,
  cell 3 is as large as the table, cell 4 reaches past the right edge, every other cell
  is a single cell at the origin.
\<close>

definition example_rect :: "nat \<Rightarrow> Rect" where
  "example_rect c =
     (if c = 0 then \<lparr>left = 0, top_rect = 0, width = 2, height = 1\<rparr>
      else if c = 1 then \<lparr>left = 0, top_rect = 1, width = 1, height = 1\<rparr>
      else if c = 2 then \<lparr>left = 1, top_rect = 1, width = 1, height = 1\<rparr>
      else if c = 3 then \<lparr>left = 0, top_rect = 0, width = 2, height = 2\<rparr>
      else if c = 4 then \<lparr>left = 1, top_rect = 0, width = 2, height = 1\<rparr>
      else \<lparr>left = 0, top_rect = 0, width = 1, height = 1\<rparr>)"

definition example_heap :: heap where
  "example_heap =
     \<lparr>cell_at = (\<lambda>c. Cell_init (example_rect c)),
      table_at = (\<lambda>t. Table_init 2 2),
      paragraph_at = (\<lambda>p. \<lparr>paragraph_parent = None\<rparr>)\<rparr>"

text \<open>
  Table 0 after \<^verbatim>\<open>add_cell\<close> of cell 2 alone, and after cell 2, then cell 0, then
  cell 1, which tile it.
\<close>

definition corner_heap :: heap where
  "corner_heap = snd (add_cell 0 2 example_heap)"

definition tiled_heap :: heap where
  "tiled_heap = snd (add_cell 0 1 (snd (add_cell 0 0 (snd (add_cell 0 2 example_heap)))))"

section \<open>What the methods maintain\<close>

subsection \<open>The states a program can reach\<close>

text \<open>
  A program starts from objects as their constructors leave them: tables of a
  non-negative number of rows and columns, cells of a non-negative width and height
  (the spec's data model) that no table owns, paragraphs that no cell owns. It then
  calls \<^verbatim>\<open>add_cell\<close> and \<^verbatim>\<open>append_paragraph\<close> on any of them, in any order, whether
  the call returns or raises; \<^verbatim>\<open>move\<close> and \<^verbatim>\<open>ready_to_move\<close> change nothing.
\<close>

definition fresh_heap :: "heap \<Rightarrow> bool" where
  "fresh_heap h \<longleftrightarrow>
     (\<forall>t. \<exists>row_num col_num. 0 \<le> row_num \<and> 0 \<le> col_num \<and>
            table_at h t = Table_init row_num col_num) \<and>
     (\<forall>c. \<exists>rect. 0 \<le> width rect \<and> 0 \<le> height rect \<and> cell_at h c = Cell_init rect) \<and>
     (\<forall>p. paragraph_parent (paragraph_at h p) = None)"

inductive reachable :: "heap \<Rightarrow> bool" where
  fresh: "fresh_heap h \<Longrightarrow> reachable h"
| add_cell: "reachable h \<Longrightarrow> reachable (snd (add_cell self cell h))"
| append_paragraph: "reachable h \<Longrightarrow> reachable (snd (append_paragraph self paragraph h))"

subsection \<open>The invariant of a table\<close>

text \<open>
  \<open>board_at\<close> reads the board at a coordinate inside it, \<open>board_dims\<close> says the board
  has the table's rows and columns, \<open>covering\<close> lists the cells of a sequence whose
  rectangle covers a coordinate, and \<open>registered\<close> says the board is right at a
  coordinate: unoccupied where no cell covers it, otherwise the position in the cell
  sequence of a cell that covers it.
\<close>

definition board_at :: "int list list \<Rightarrow> int \<Rightarrow> int \<Rightarrow> int" where
  "board_at b row col = b ! nat row ! nat col"

definition board_dims :: "int list list \<Rightarrow> int \<Rightarrow> int \<Rightarrow> bool" where
  "board_dims b h w \<longleftrightarrow> length b = nat h \<and> (\<forall>line\<in>set b. length line = nat w)"

definition covering :: "(nat \<Rightarrow> Cell) \<Rightarrow> nat list \<Rightarrow> int \<Rightarrow> int \<Rightarrow> nat list" where
  "covering cs xs row col = filter (\<lambda>c. contains_point (cs c) col row) xs"

definition registered :: "(nat \<Rightarrow> Cell) \<Rightarrow> Table \<Rightarrow> int \<Rightarrow> int \<Rightarrow> bool" where
  "registered cs T row col \<longleftrightarrow>
     (board_at (board T) row col = UNOCCUPIED_CELL \<and> covering cs (cells T) row col = []) \<or>
     (0 \<le> board_at (board T) row col \<and> board_at (board T) row col < int (length (cells T)) \<and>
      contains_point (cs (cells T ! nat (board_at (board T) row col))) col row)"

definition table_inv :: "(nat \<Rightarrow> Cell) \<Rightarrow> Table \<Rightarrow> bool" where
  "table_inv cs T \<longleftrightarrow>
     left T = 0 \<and> top_rect T = 0 \<and> 0 \<le> width T \<and> 0 \<le> height T \<and>
     board_dims (board T) (height T) (width T) \<and>
     (\<forall>c\<in>set (cells T). contains T (cs c)) \<and>
     sorted (map (cell_key cs) (cells T)) \<and>
     occupied_area T = sum_list (map (\<lambda>c. area (cs c)) (cells T)) \<and>
     (\<forall>row col. length (covering cs (cells T) row col) \<le> 1) \<and>
     (\<forall>row col. 0 \<le> row \<and> row < height T \<and> 0 \<le> col \<and> col < width T \<longrightarrow>
        registered cs T row col)"

text \<open>Two stores whose cells have the same rectangles; the grid of a table.\<close>

definition same_rects :: "(nat \<Rightarrow> Cell) \<Rightarrow> (nat \<Rightarrow> Cell) \<Rightarrow> bool" where
  "same_rects cs cs' \<longleftrightarrow>
     (\<forall>c. left (cs' c) = left (cs c) \<and> top_rect (cs' c) = top_rect (cs c) \<and>
          width (cs' c) = width (cs c) \<and> height (cs' c) = height (cs c))"

definition heap_inv :: "heap \<Rightarrow> bool" where
  "heap_inv h \<longleftrightarrow>
     (\<forall>c. 0 \<le> width (cell_at h c) \<and> 0 \<le> height (cell_at h c)) \<and>
     (\<forall>t. table_inv (cell_at h) (table_at h t))"

definition grid :: "Table \<Rightarrow> (int \<times> int) set" where
  "grid T = {0..height T - 1} \<times> {0..width T - 1}"

section \<open>Proofs\<close>

subsection \<open>Indexing inside the board\<close>

lemma py_index_in_range:
  "0 \<le> i \<Longrightarrow> i < int (length xs) \<Longrightarrow> py_index xs i = Inr (nat i)"
  by (simp add: py_index_def)

lemma getitem_in_range:
  "0 \<le> i \<Longrightarrow> i < int (length xs) \<Longrightarrow> getitem xs i = Inr (xs ! nat i)"
  by (simp add: getitem_def py_index_in_range)

lemma board_dims_line:
  "board_dims b h w \<Longrightarrow> 0 \<le> row \<Longrightarrow> row < h \<Longrightarrow> length (b ! nat row) = nat w"
  by (simp add: board_dims_def)

lemma board_get_in_range:
  assumes "board_dims b h w" "0 \<le> row" "row < h" "0 \<le> col" "col < w"
  shows "board_get b row col = Inr (board_at b row col)"
proof -
  have "getitem b row = Inr (b ! nat row)"
    using assms by (simp add: getitem_in_range board_dims_def)
  moreover have "getitem (b ! nat row) col = Inr (b ! nat row ! nat col)"
    using assms board_dims_line[OF assms(1-3)] by (simp add: getitem_in_range)
  ultimately show ?thesis by (simp add: board_get_def board_at_def)
qed

lemma board_set_in_range:
  assumes "board_dims b h w" "0 \<le> row" "row < h" "0 \<le> col" "col < w"
  shows "board_set b row col v = Inr (b[nat row := (b ! nat row)[nat col := v]])"
proof -
  have "py_index b row = Inr (nat row)"
    using assms by (simp add: py_index_in_range board_dims_def)
  moreover have "py_index (b ! nat row) col = Inr (nat col)"
    using assms board_dims_line[OF assms(1-3)] by (simp add: py_index_in_range)
  ultimately show ?thesis by (simp add: board_set_def)
qed

lemma board_dims_update:
  assumes "board_dims b h w" "0 \<le> row" "row < h"
  shows "board_dims (b[nat row := (b ! nat row)[k := v]]) h w"
proof -
  have "length ((b ! nat row)[k := v]) = nat w"
    using board_dims_line[OF assms] by simp
  then show ?thesis
    using assms(1) by (auto simp: board_dims_def dest!: set_update_subset_insert[THEN subsetD])
qed

lemma board_at_update:
  assumes "board_dims b h w" "0 \<le> row" "row < h" "0 \<le> col" "col < w"
    "0 \<le> r" "r < h" "0 \<le> c" "c < w"
  shows "board_at (b[nat row := (b ! nat row)[nat col := v]]) r c =
           (if r = row \<and> c = col then v else board_at b r c)"
proof -
  have len: "nat row < length b" "nat r < length b"
    using assms by (simp_all add: board_dims_def)
  have line: "nat col < length (b ! nat row)"
    using board_dims_line[OF assms(1-3)] assms by simp
  have neq: "r \<noteq> row \<Longrightarrow> nat r \<noteq> nat row" "c \<noteq> col \<Longrightarrow> nat c \<noteq> nat col"
    using assms by auto
  show ?thesis
    using len line neq by (auto simp: board_at_def nth_list_update)
qed

lemma fill_cols_ok:
  assumes "board_dims b h w" "0 \<le> row" "row < h" "\<forall>col\<in>set cols. 0 \<le> col \<and> col < w"
  shows "\<exists>b'. fill_cols row cols idx b = (None, b') \<and> board_dims b' h w \<and>
           (\<forall>r c. 0 \<le> r \<and> r < h \<and> 0 \<le> c \<and> c < w \<longrightarrow>
              board_at b' r c = (if r = row \<and> c \<in> set cols then idx else board_at b r c))"
  using assms
proof (induction cols arbitrary: b)
  case Nil
  then show ?case by simp
next
  case (Cons col cols)
  let ?b1 = "b[nat row := (b ! nat row)[nat col := idx]]"
  have col: "0 \<le> col" "col < w" using Cons.prems(4) by simp_all
  have set1: "board_set b row col idx = Inr ?b1"
    using board_set_in_range[OF Cons.prems(1-3) col] .
  have dims1: "board_dims ?b1 h w"
    using board_dims_update[OF Cons.prems(1-3)] .
  from Cons.IH[OF dims1 Cons.prems(2,3)] Cons.prems(4)
  obtain b' where b': "fill_cols row cols idx ?b1 = (None, b')" "board_dims b' h w"
    "\<forall>r c. 0 \<le> r \<and> r < h \<and> 0 \<le> c \<and> c < w \<longrightarrow>
        board_at b' r c = (if r = row \<and> c \<in> set cols then idx else board_at ?b1 r c)"
    by auto
  have "\<forall>r c. 0 \<le> r \<and> r < h \<and> 0 \<le> c \<and> c < w \<longrightarrow>
      board_at b' r c = (if r = row \<and> c \<in> set (col # cols) then idx else board_at b r c)"
    using b'(3) board_at_update[OF Cons.prems(1-3) col] by auto
  then show ?case using set1 b'(1,2) by simp
qed

lemma fill_rows_ok:
  assumes "board_dims b h w" "\<forall>row\<in>set rows. 0 \<le> row \<and> row < h"
    "\<forall>col\<in>set cols. 0 \<le> col \<and> col < w"
  shows "\<exists>b'. fill_rows rows cols idx b = (None, b') \<and> board_dims b' h w \<and>
           (\<forall>r c. 0 \<le> r \<and> r < h \<and> 0 \<le> c \<and> c < w \<longrightarrow>
              board_at b' r c = (if r \<in> set rows \<and> c \<in> set cols then idx else board_at b r c))"
  using assms
proof (induction rows arbitrary: b)
  case Nil
  then show ?case by simp
next
  case (Cons row rows)
  have row: "0 \<le> row" "row < h" using Cons.prems(2) by simp_all
  from fill_cols_ok[OF Cons.prems(1) row Cons.prems(3), of idx]
  obtain b1 where b1: "fill_cols row cols idx b = (None, b1)" "board_dims b1 h w"
    "\<forall>r c. 0 \<le> r \<and> r < h \<and> 0 \<le> c \<and> c < w \<longrightarrow>
        board_at b1 r c = (if r = row \<and> c \<in> set cols then idx else board_at b r c)"
    by blast
  from Cons.IH[OF b1(2) _ Cons.prems(3)] Cons.prems(2)
  obtain b' where b': "fill_rows rows cols idx b1 = (None, b')" "board_dims b' h w"
    "\<forall>r c. 0 \<le> r \<and> r < h \<and> 0 \<le> c \<and> c < w \<longrightarrow>
        board_at b' r c = (if r \<in> set rows \<and> c \<in> set cols then idx else board_at b1 r c)"
    by auto
  have "\<forall>r c. 0 \<le> r \<and> r < h \<and> 0 \<le> c \<and> c < w \<longrightarrow>
      board_at b' r c = (if r \<in> set (row # rows) \<and> c \<in> set cols then idx else board_at b r c)"
    using b'(3) b1(3) by auto
  then show ?case using b1(1) b'(1,2) by simp
qed

subsection \<open>Filling the board\<close>

lemma fill_board_ok:
  assumes dims: "board_dims (board T) (height T) (width T)"
    and orig: "left T = 0" "top_rect T = 0"
    and inside: "contains T C"
  shows "\<exists>b'. fill_board C idx T =
            (None, T\<lparr>board := b', occupied_area := occupied_area T + area C\<rparr>) \<and>
           board_dims b' (height T) (width T) \<and>
           (\<forall>row col. 0 \<le> row \<and> row < height T \<and> 0 \<le> col \<and> col < width T \<longrightarrow>
              board_at b' row col =
                (if contains_point C col row then idx else board_at (board T) row col))"
proof -
  have rows: "\<forall>row\<in>set [top_rect C..bottom C]. 0 \<le> row \<and> row < height T"
    using inside orig by (auto simp: contains_def bottom_def)
  have cols: "\<forall>col\<in>set [left C..right C]. 0 \<le> col \<and> col < width T"
    using inside orig by (auto simp: contains_def right_def)
  from fill_rows_ok[OF dims rows cols, of idx]
  obtain b' where b': "fill_rows [top_rect C..bottom C] [left C..right C] idx (board T) = (None, b')"
    "board_dims b' (height T) (width T)"
    "\<forall>r c. 0 \<le> r \<and> r < height T \<and> 0 \<le> c \<and> c < width T \<longrightarrow>
        board_at b' r c =
          (if r \<in> set [top_rect C..bottom C] \<and> c \<in> set [left C..right C] then idx
           else board_at (board T) r c)"
    by blast
  have "\<forall>row col. 0 \<le> row \<and> row < height T \<and> 0 \<le> col \<and> col < width T \<longrightarrow>
      board_at b' row col =
        (if contains_point C col row then idx else board_at (board T) row col)"
    using b'(3) by (auto simp: contains_point_def)
  moreover have "fill_board C idx T =
      (None, T\<lparr>board := b', occupied_area := occupied_area T + area C\<rparr>)"
    using b'(1) by (simp add: fill_board_def)
  ultimately show ?thesis
    using b'(2) by blast
qed

lemma fill_all_ok:
  assumes "board_dims (board T) (height T) (width T)" "left T = 0" "top_rect T = 0"
    "\<forall>(i, c)\<in>set ics. contains T (cs c)"
  shows "\<exists>b'. fill_all cs ics T =
            (None, T\<lparr>board := b',
                     occupied_area := occupied_area T + sum_list (map (\<lambda>(i, c). area (cs c)) ics)\<rparr>) \<and>
           board_dims b' (height T) (width T) \<and>
           (\<forall>row col. 0 \<le> row \<and> row < height T \<and> 0 \<le> col \<and> col < width T \<longrightarrow>
              (board_at b' row col = board_at (board T) row col \<and>
                 (\<forall>(i, c)\<in>set ics. \<not> contains_point (cs c) col row)) \<or>
              (\<exists>(i, c)\<in>set ics. contains_point (cs c) col row \<and> board_at b' row col = int i))"
  using assms
proof (induction ics arbitrary: T)
  case Nil
  then show ?case by (intro exI[of _ "board T"]) simp
next
  case (Cons ic ics)
  obtain i c where ic: "ic = (i, c)" by (cases ic)
  have inside: "contains T (cs c)" using Cons.prems(4) ic by simp
  from fill_board_ok[OF Cons.prems(1-3) inside, of "int i"]
  obtain b1 where b1:
    "fill_board (cs c) (int i) T =
       (None, T\<lparr>board := b1, occupied_area := occupied_area T + area (cs c)\<rparr>)"
    "board_dims b1 (height T) (width T)"
    "\<forall>row col. 0 \<le> row \<and> row < height T \<and> 0 \<le> col \<and> col < width T \<longrightarrow>
        board_at b1 row col =
          (if contains_point (cs c) col row then int i else board_at (board T) row col)"
    by blast
  let ?T1 = "T\<lparr>board := b1, occupied_area := occupied_area T + area (cs c)\<rparr>"
  have p1: "board_dims (board ?T1) (height ?T1) (width ?T1)" using b1(2) by simp
  have p2: "left ?T1 = 0" "top_rect ?T1 = 0" using Cons.prems(2,3) by simp_all
  have p3: "\<forall>(i, c)\<in>set ics. contains ?T1 (cs c)"
    using Cons.prems(4) by (auto simp: contains_def right_def bottom_def)
  from Cons.IH[OF p1 p2 p3]
  obtain b' where b':
    "fill_all cs ics ?T1 =
       (None, ?T1\<lparr>board := b',
                  occupied_area := occupied_area ?T1 + sum_list (map (\<lambda>(i, c). area (cs c)) ics)\<rparr>)"
    "board_dims b' (height T) (width T)"
    "\<forall>row col. 0 \<le> row \<and> row < height T \<and> 0 \<le> col \<and> col < width T \<longrightarrow>
        (board_at b' row col = board_at b1 row col \<and>
           (\<forall>(i, c)\<in>set ics. \<not> contains_point (cs c) col row)) \<or>
        (\<exists>(i, c)\<in>set ics. contains_point (cs c) col row \<and> board_at b' row col = int i)"
    by auto
  have eq: "fill_all cs (ic # ics) T =
      (None, T\<lparr>board := b',
               occupied_area := occupied_area T + sum_list (map (\<lambda>(i, c). area (cs c)) (ic # ics))\<rparr>)"
    using b1(1) b'(1) ic by (simp add: add.assoc)
  have pt: "\<forall>row col. 0 \<le> row \<and> row < height T \<and> 0 \<le> col \<and> col < width T \<longrightarrow>
      (board_at b' row col = board_at (board T) row col \<and>
         (\<forall>(i, c)\<in>set (ic # ics). \<not> contains_point (cs c) col row)) \<or>
      (\<exists>(i, c)\<in>set (ic # ics). contains_point (cs c) col row \<and> board_at b' row col = int i)"
  proof (intro allI impI)
    fix row col
    assume g: "0 \<le> row \<and> row < height T \<and> 0 \<le> col \<and> col < width T"
    from b'(3) g consider
      (keep) "board_at b' row col = board_at b1 row col"
        "\<forall>(i, c)\<in>set ics. \<not> contains_point (cs c) col row"
      | (later) "\<exists>(i, c)\<in>set ics. contains_point (cs c) col row \<and> board_at b' row col = int i"
      by blast
    then show "(board_at b' row col = board_at (board T) row col \<and>
         (\<forall>(i, c)\<in>set (ic # ics). \<not> contains_point (cs c) col row)) \<or>
      (\<exists>(i, c)\<in>set (ic # ics). contains_point (cs c) col row \<and> board_at b' row col = int i)"
    proof cases
      case keep
      show ?thesis
      proof (cases "contains_point (cs c) col row")
        case True
        then have "board_at b' row col = int i" using keep(1) b1(3) g by simp
        then show ?thesis using True ic by auto
      next
        case False
        then have "board_at b' row col = board_at (board T) row col"
          using keep(1) b1(3) g by simp
        then show ?thesis using False keep(2) ic by auto
      qed
    next
      case later
      then show ?thesis by auto
    qed
  qed
  show ?case using eq b'(2) pt by blast
qed

subsection \<open>The overlap check and the errors raised\<close>

lemma py_index_error: "py_index xs i = Inl e \<Longrightarrow> e = IndexError"
  by (auto simp: py_index_def split: if_splits)

lemma getitem_error: "getitem xs i = Inl e \<Longrightarrow> e = IndexError"
  by (auto simp: getitem_def split: sum.splits dest: py_index_error)

lemma board_get_error: "board_get b row col = Inl e \<Longrightarrow> e = IndexError"
  by (auto simp: board_get_def split: sum.splits dest: getitem_error)

lemma board_set_error: "board_set b row col v = Inl e \<Longrightarrow> e = IndexError"
  by (auto simp: board_set_def split: sum.splits dest: py_index_error)

lemma check_cols_None:
  "check_cols b row cols = None \<longleftrightarrow>
     (\<forall>col\<in>set cols. board_get b row col = Inr UNOCCUPIED_CELL)"
  by (induction cols) (auto split: sum.splits)

lemma check_rows_None:
  "check_rows b rows cols = None \<longleftrightarrow>
     (\<forall>row\<in>set rows. \<forall>col\<in>set cols. board_get b row col = Inr UNOCCUPIED_CELL)"
proof (induction rows)
  case Nil
  then show ?case by simp
next
  case (Cons row rows)
  show ?case
  proof (cases "check_cols b row cols")
    case None
    then show ?thesis
      using Cons.IH check_cols_None[of b row cols] by auto
  next
    case (Some e)
    then have "\<not> (\<forall>col\<in>set cols. board_get b row col = Inr UNOCCUPIED_CELL)"
      using check_cols_None[of b row cols] by simp
    then show ?thesis using Some by auto
  qed
qed

lemma check_cols_Occupied:
  "check_cols b row cols = Some (Occupied r c) \<Longrightarrow>
     r = row \<and>
     (\<exists>pre post v. cols = pre @ c # post \<and>
        (\<forall>c'\<in>set pre. board_get b row c' = Inr UNOCCUPIED_CELL) \<and>
        board_get b row c = Inr v \<and> v \<noteq> UNOCCUPIED_CELL)"
proof (induction cols)
  case Nil
  then show ?case by simp
next
  case (Cons col cols)
  show ?case
  proof (cases "board_get b row col")
    case (Inl e)
    then show ?thesis using Cons.prems board_get_error[OF Inl] by simp
  next
    case (Inr v)
    show ?thesis
    proof (cases "v = UNOCCUPIED_CELL")
      case True
      then have "check_cols b row cols = Some (Occupied r c)"
        using Cons.prems Inr by simp
      from Cons.IH[OF this] obtain pre post v' where
        "r = row" "cols = pre @ c # post"
        "\<forall>c'\<in>set pre. board_get b row c' = Inr UNOCCUPIED_CELL"
        "board_get b row c = Inr v'" "v' \<noteq> UNOCCUPIED_CELL"
        by blast
      then have "col # cols = (col # pre) @ c # post \<and>
        (\<forall>c'\<in>set (col # pre). board_get b row c' = Inr UNOCCUPIED_CELL) \<and>
        board_get b row c = Inr v' \<and> v' \<noteq> UNOCCUPIED_CELL"
        using Inr True by simp
      then show ?thesis using \<open>r = row\<close> by blast
    next
      case False
      then have "r = row" "c = col" using Cons.prems Inr by simp_all
      then have "col # cols = [] @ c # cols \<and>
        (\<forall>c'\<in>set []. board_get b row c' = Inr UNOCCUPIED_CELL) \<and>
        board_get b row c = Inr v \<and> v \<noteq> UNOCCUPIED_CELL"
        using Inr False by simp
      then show ?thesis using \<open>r = row\<close> by blast
    qed
  qed
qed

lemma check_rows_Occupied:
  "check_rows b rows cols = Some (Occupied r c) \<Longrightarrow>
     \<exists>pre post. rows = pre @ r # post \<and>
        (\<forall>r'\<in>set pre. \<forall>c'\<in>set cols. board_get b r' c' = Inr UNOCCUPIED_CELL) \<and>
        check_cols b r cols = Some (Occupied r c)"
proof (induction rows)
  case Nil
  then show ?case by simp
next
  case (Cons row rows)
  show ?case
  proof (cases "check_cols b row cols")
    case None
    then have "check_rows b rows cols = Some (Occupied r c)"
      using Cons.prems by simp
    from Cons.IH[OF this] obtain pre post where
      "rows = pre @ r # post"
      "\<forall>r'\<in>set pre. \<forall>c'\<in>set cols. board_get b r' c' = Inr UNOCCUPIED_CELL"
      "check_cols b r cols = Some (Occupied r c)"
      by blast
    then have "row # rows = (row # pre) @ r # post \<and>
      (\<forall>r'\<in>set (row # pre). \<forall>c'\<in>set cols. board_get b r' c' = Inr UNOCCUPIED_CELL) \<and>
      check_cols b r cols = Some (Occupied r c)"
      using None by (simp add: check_cols_None)
    then show ?thesis by blast
  next
    case (Some e)
    then have e: "check_cols b row cols = Some (Occupied r c)"
      using Cons.prems by simp
    then have "r = row" using check_cols_Occupied by blast
    then have "row # rows = [] @ r # rows \<and>
      (\<forall>r'\<in>set []. \<forall>c'\<in>set cols. board_get b r' c' = Inr UNOCCUPIED_CELL) \<and>
      check_cols b r cols = Some (Occupied r c)"
      using e by simp
    then show ?thesis by blast
  qed
qed

lemma upto_before:
  assumes "[l..u] = pre @ c # post"
  shows "set pre = {l..c - 1}"
proof -
  have "sorted_wrt (<) (pre @ c # post)"
    using assms sorted_upto distinct_upto strict_sorted_iff by metis
  then have lt: "\<forall>x\<in>set pre. x < c" and gt: "\<forall>y\<in>set post. c < y"
    by (auto simp: sorted_wrt_append)
  have "set pre \<union> {c} \<union> set post = {l..u}"
    using arg_cong[OF assms, of set] by auto
  then have un: "\<And>x. x \<in> {l..u} \<longleftrightarrow> x \<in> set pre \<or> x = c \<or> x \<in> set post"
    by blast
  show ?thesis
  proof (intro set_eqI iffI)
    fix x assume x: "x \<in> set pre"
    then have "l \<le> x" using un[of x] by simp
    then show "x \<in> {l..c - 1}" using lt x by auto
  next
    fix x assume x: "x \<in> {l..c - 1}"
    have "c \<le> u" using un[of c] by simp
    then have "x \<in> {l..u}" using x by simp
    moreover have "x \<noteq> c" "x \<notin> set post" using x gt by auto
    ultimately show "x \<in> set pre" using un[of x] by simp
  qed
qed

lemma fill_cols_error: "fill_cols row cols idx b = (Some e, b') \<Longrightarrow> e = IndexError"
  by (induction cols arbitrary: b) (auto split: sum.splits dest: board_set_error)

lemma fill_rows_error: "fill_rows rows cols idx b = (Some e, b') \<Longrightarrow> e = IndexError"
  by (induction rows arbitrary: b) (auto split: prod.splits option.splits dest: fill_cols_error)

lemma fill_board_error: "fill_board C idx T = (Some e, T') \<Longrightarrow> e = IndexError"
  by (auto simp: fill_board_def split: prod.splits option.splits dest: fill_rows_error)

lemma fill_all_error: "fill_all cs ics T = (Some e, T') \<Longrightarrow> e = IndexError"
  by (induction cs ics T rule: fill_all.induct)
     (auto split: prod.splits option.splits dest: fill_board_error)

subsection \<open>The invariant: first facts\<close>

lemma same_rects_facts:
  assumes "same_rects cs cs'"
  shows "contains_point (cs' c) x y = contains_point (cs c) x y"
    and "contains T (cs' c) = contains T (cs c)"
    and "area (cs' c) = area (cs c)"
    and "cell_key cs' = cell_key cs"
    and "covering cs' = covering cs"
proof -
  show p: "\<And>c x y. contains_point (cs' c) x y = contains_point (cs c) x y"
    using assms by (simp add: same_rects_def contains_point_def right_def bottom_def)
  show "contains T (cs' c) = contains T (cs c)"
    using assms by (simp add: same_rects_def contains_def right_def bottom_def)
  show "area (cs' c) = area (cs c)"
    using assms by (simp add: same_rects_def area_def)
  show "cell_key cs' = cell_key cs"
    using assms by (intro ext) (simp add: same_rects_def cell_key_def)
  show "covering cs' = covering cs"
    by (intro ext) (simp add: covering_def p)
qed

lemma table_inv_same_rects:
  assumes "same_rects cs cs'"
  shows "table_inv cs' T = table_inv cs T"
  by (simp add: table_inv_def registered_def same_rects_facts[OF assms])

lemma table_inv_init:
  assumes "0 \<le> row_num" "0 \<le> col_num"
  shows "table_inv cs (Table_init row_num col_num)"
  using assms
  by (simp add: table_inv_def Table_init_def board_dims_def registered_def covering_def
      board_at_def)

lemma enumerate_forget:
  "map (\<lambda>(i, c). f c) (List.enumerate n xs) = map f xs"
  by (induction xs arbitrary: n) simp_all

lemma covering_unique:
  assumes "length (covering cs xs row col) \<le> 1" "i < length xs" "j < length xs"
    "contains_point (cs (xs ! i)) col row" "contains_point (cs (xs ! j)) col row"
  shows "i = j"
proof (rule ccontr)
  assume ne: "i \<noteq> j"
  define P where "P = (\<lambda>c. contains_point (cs c) col row)"
  have le: "length (filter P xs) \<le> 1" using assms(1) by (simp add: covering_def P_def)
  have P: "P (xs ! i)" "P (xs ! j)" using assms(4,5) by (simp_all add: P_def)
  have two: "\<And>a b. a < b \<Longrightarrow> b < length xs \<Longrightarrow> P (xs ! a) \<Longrightarrow> P (xs ! b) \<Longrightarrow> False"
  proof -
    fix a b assume ab: "a < b" "b < length xs" "P (xs ! a)" "P (xs ! b)"
    have split: "xs = take b xs @ drop b xs" by simp
    have "xs ! a \<in> set (take b xs)"
      using ab(1,2) by (metis in_set_conv_nth length_take min.absorb2 less_imp_le nth_take)
    then have "filter P (take b xs) \<noteq> []" using ab(3) by (auto simp: filter_empty_conv)
    then have l1: "1 \<le> length (filter P (take b xs))"
      by (cases "filter P (take b xs)") simp_all
    have "xs ! b \<in> set (drop b xs)"
      using ab(2) by (metis Cons_nth_drop_Suc list.set_intros(1))
    then have "filter P (drop b xs) \<noteq> []" using ab(4) by (auto simp: filter_empty_conv)
    then have l2: "1 \<le> length (filter P (drop b xs))"
      by (cases "filter P (drop b xs)") simp_all
    have "length (filter P xs) = length (filter P (take b xs)) + length (filter P (drop b xs))"
      by (metis split filter_append length_append)
    then show False using l1 l2 le by simp
  qed
  show False
  proof (cases "i < j")
    case True
    then show ?thesis using two[of i j] assms(3) P by simp
  next
    case False
    then have "j < i" using ne by simp
    then show ?thesis using two[of j i] assms(2) P by simp
  qed
qed

subsection \<open>The rebuild keeps the invariant\<close>

lemma length_filter_insort_key:
  "length (filter P (insort_key k x xs)) = length (filter P (x # xs))"
  by (induction xs) simp_all

lemma length_filter_sort_key:
  "length (filter P (sort_key k xs)) = length (filter P xs)"
  by (induction xs) (simp_all add: length_filter_insort_key)

lemma unoccupied_not_index: "\<not> 0 \<le> UNOCCUPIED_CELL"
  by (simp add: UNOCCUPIED_CELL_def)

lemma rebuild_inv:
  assumes inv: "table_inv cs T"
    and inside: "contains T (cs cell)"
    and free: "check_rows (board T) [top_rect (cs cell)..bottom (cs cell)]
                 [left (cs cell)..right (cs cell)] = None"
    and ys: "ys = sort_key (cell_key cs) (cells T @ [cell])"
  shows "\<exists>T'. fill_all cs (List.enumerate 0 ys) (T\<lparr>cells := ys, occupied_area := 0\<rparr>) = (None, T') \<and>
           table_inv cs T' \<and> cells T' = ys \<and> width T' = width T \<and> height T' = height T"
proof -
  have orig: "left T = 0" "top_rect T = 0" and nonneg: "0 \<le> width T" "0 \<le> height T"
    and dims: "board_dims (board T) (height T) (width T)"
    and old_inside: "\<forall>c\<in>set (cells T). contains T (cs c)"
    and old_count: "\<forall>row col. length (covering cs (cells T) row col) \<le> 1"
    and old_reg: "\<forall>row col. 0 \<le> row \<and> row < height T \<and> 0 \<le> col \<and> col < width T \<longrightarrow>
        registered cs T row col"
    using inv by (simp_all add: table_inv_def)
  have grid: "0 \<le> row \<and> row < height T \<and> 0 \<le> col \<and> col < width T"
    if "contains_point (cs cell) col row" for row col
    using that inside orig
    by (auto simp: contains_def contains_point_def right_def bottom_def)
  have free_pts: "covering cs (cells T) row col = []"
    if cp: "contains_point (cs cell) col row" for row col
  proof -
    have "row \<in> set [top_rect (cs cell)..bottom (cs cell)]"
      "col \<in> set [left (cs cell)..right (cs cell)]"
      using cp by (simp_all add: contains_point_def)
    then have "board_get (board T) row col = Inr UNOCCUPIED_CELL"
      using free by (simp add: check_rows_None)
    moreover have "board_get (board T) row col = Inr (board_at (board T) row col)"
      using board_get_in_range[OF dims] grid[OF cp] by simp
    ultimately have "board_at (board T) row col = UNOCCUPIED_CELL" by simp
    moreover have "registered cs T row col" using old_reg grid[OF cp] by simp
    ultimately show ?thesis
      using unoccupied_not_index by (auto simp: registered_def)
  qed
  have set_ys: "set ys = insert cell (set (cells T))" and len_ys: "length ys = Suc (length (cells T))"
    by (simp_all add: ys)
  have new_inside: "\<forall>c\<in>set ys. contains T (cs c)"
    using old_inside inside set_ys by simp
  have new_sorted: "sorted (map (cell_key cs) ys)"
    by (simp add: ys)
  have new_count: "length (covering cs ys row col) \<le> 1" for row col
  proof -
    have "length (covering cs ys row col) =
        length (covering cs (cells T) row col) +
        (if contains_point (cs cell) col row then 1 else 0)"
      by (simp add: covering_def ys length_filter_sort_key)
    then show ?thesis
      using free_pts[of col row] old_count by (auto split: if_splits)
  qed
  let ?T1 = "T\<lparr>cells := ys, occupied_area := 0\<rparr>"
  have p1: "board_dims (board ?T1) (height ?T1) (width ?T1)" using dims by simp
  have p2: "left ?T1 = 0" "top_rect ?T1 = 0" using orig by simp_all
  have p3: "\<forall>(i, c)\<in>set (List.enumerate 0 ys). contains ?T1 (cs c)"
    using new_inside by (auto simp: in_set_enumerate_eq contains_def right_def bottom_def)
  from fill_all_ok[OF p1 p2 p3]
  obtain b' where b':
    "fill_all cs (List.enumerate 0 ys) ?T1 =
       (None, ?T1\<lparr>board := b',
                  occupied_area := occupied_area ?T1 +
                    sum_list (map (\<lambda>(i, c). area (cs c)) (List.enumerate 0 ys))\<rparr>)"
    "board_dims b' (height T) (width T)"
    "\<forall>row col. 0 \<le> row \<and> row < height T \<and> 0 \<le> col \<and> col < width T \<longrightarrow>
        (board_at b' row col = board_at (board T) row col \<and>
           (\<forall>(i, c)\<in>set (List.enumerate 0 ys). \<not> contains_point (cs c) col row)) \<or>
        (\<exists>(i, c)\<in>set (List.enumerate 0 ys). contains_point (cs c) col row \<and>
           board_at b' row col = int i)"
    by auto
  let ?T' = "T\<lparr>cells := ys, board := b',
               occupied_area := sum_list (map (\<lambda>c. area (cs c)) ys)\<rparr>"
  have run: "fill_all cs (List.enumerate 0 ys) ?T1 = (None, ?T')"
    using b'(1) by (simp add: enumerate_forget)
  have new_reg: "registered cs ?T' row col"
    if g: "0 \<le> row \<and> row < height T \<and> 0 \<le> col \<and> col < width T" for row col
  proof -
    from b'(3) g consider
      (keep) "board_at b' row col = board_at (board T) row col"
        "\<forall>(i, c)\<in>set (List.enumerate 0 ys). \<not> contains_point (cs c) col row"
      | (written) "\<exists>(i, c)\<in>set (List.enumerate 0 ys). contains_point (cs c) col row \<and>
           board_at b' row col = int i"
      by blast
    then show ?thesis
    proof cases
      case keep
      have none: "\<forall>c\<in>set ys. \<not> contains_point (cs c) col row"
      proof
        fix c assume "c \<in> set ys"
        then obtain i where "i < length ys" "ys ! i = c" by (auto simp: in_set_conv_nth)
        then have "(i, c) \<in> set (List.enumerate 0 ys)" by (simp add: in_set_enumerate_eq)
        then show "\<not> contains_point (cs c) col row" using keep(2) by auto
      qed
      then have empty_new: "covering cs ys row col = []"
        by (simp add: covering_def filter_empty_conv)
      have none_old: "\<forall>c\<in>set (cells T). \<not> contains_point (cs c) col row"
        using none set_ys by simp
      have "registered cs T row col" using old_reg g by simp
      then have "board_at (board T) row col = UNOCCUPIED_CELL"
        using none_old by (auto simp: registered_def)
      then show ?thesis
        using keep(1) empty_new by (simp add: registered_def)
    next
      case written
      then obtain i c where ic: "(i, c) \<in> set (List.enumerate 0 ys)"
        "contains_point (cs c) col row" "board_at b' row col = int i"
        by auto
      then have "i < length ys" "ys ! i = c" by (simp_all add: in_set_enumerate_eq)
      then show ?thesis
        using ic(2,3) by (simp add: registered_def)
    qed
  qed
  have "table_inv cs ?T'"
    unfolding table_inv_def
  proof (intro conjI)
    show "left ?T' = 0" "top_rect ?T' = 0" "0 \<le> width ?T'" "0 \<le> height ?T'"
      using orig nonneg by simp_all
    show "board_dims (board ?T') (height ?T') (width ?T')" using b'(2) by simp
    show "\<forall>c\<in>set (cells ?T'). contains ?T' (cs c)"
      using new_inside by (simp add: contains_def right_def bottom_def)
    show "sorted (map (cell_key cs) (cells ?T'))" using new_sorted by simp
    show "occupied_area ?T' = sum_list (map (\<lambda>c. area (cs c)) (cells ?T'))" by simp
    show "\<forall>row col. length (covering cs (cells ?T') row col) \<le> 1"
      using new_count by simp
    show "\<forall>row col. 0 \<le> row \<and> row < height ?T' \<and> 0 \<le> col \<and> col < width ?T' \<longrightarrow>
        registered cs ?T' row col"
      using new_reg by simp
  qed
  then show ?thesis using run by (intro exI[of _ ?T']) simp
qed

subsection \<open>Every reachable store satisfies the invariant\<close>

lemma same_rects_parent: "same_rects cs (cs(c := (cs c)\<lparr>parent := p\<rparr>))"
  by (simp add: same_rects_def)

lemma same_rects_paragraphs: "same_rects cs (cs(c := (cs c)\<lparr>paragraphs := ps\<rparr>))"
  by (simp add: same_rects_def)

lemma fill_board_same_rects:
  assumes "same_rects cs cs'"
  shows "fill_board (cs' c) idx T = fill_board (cs c) idx T"
proof -
  have "top_rect (cs' c) = top_rect (cs c)" "bottom (cs' c) = bottom (cs c)"
    "left (cs' c) = left (cs c)" "right (cs' c) = right (cs c)" "area (cs' c) = area (cs c)"
    using assms by (simp_all add: same_rects_def right_def bottom_def area_def)
  then show ?thesis
    unfolding fill_board_def by (simp split: prod.splits option.splits)
qed

lemma fill_all_same_rects:
  assumes "same_rects cs cs'"
  shows "fill_all cs' ics T = fill_all cs ics T"
proof (induction ics arbitrary: T)
  case Nil
  show ?case by simp
next
  case (Cons ic ics)
  obtain i c where ic: "ic = (i, c)" by (cases ic)
  show ?case
    unfolding ic fill_all.simps fill_board_same_rects[OF assms]
    by (simp add: Cons.IH split: prod.splits option.splits)
qed

lemma add_cell_NotInside:
  "\<not> contains (table_at h self) (cell_at h cell) \<Longrightarrow> add_cell self cell h = (Inl NotInside, h)"
  by (simp add: add_cell_def)

lemma add_cell_check_fails:
  "contains (table_at h self) (cell_at h cell) \<Longrightarrow>
   check_rows (board (table_at h self))
     [top_rect (cell_at h cell)..bottom (cell_at h cell)]
     [left (cell_at h cell)..right (cell_at h cell)] = Some e \<Longrightarrow>
   add_cell self cell h = (Inl e, h)"
  by (simp add: add_cell_def)

lemma add_cell_commit:
  assumes "contains (table_at h self) (cell_at h cell)"
    "check_rows (board (table_at h self))
       [top_rect (cell_at h cell)..bottom (cell_at h cell)]
       [left (cell_at h cell)..right (cell_at h cell)] = None"
    "ys = sort_key (cell_key (cell_at h)) (cells (table_at h self) @ [cell])"
    "fill_all (cell_at h) (List.enumerate 0 ys)
       ((table_at h self)\<lparr>cells := ys, occupied_area := 0\<rparr>) = (r, T')"
  shows "add_cell self cell h =
     ((case r of Some e \<Rightarrow> Inl e | None \<Rightarrow> Inr self),
      h\<lparr>cell_at := (cell_at h)(cell := (cell_at h cell)\<lparr>parent := Some self\<rparr>),
        table_at := (table_at h)(self := T')\<rparr>)"
proof -
  let ?cs' = "(cell_at h)(cell := (cell_at h cell)\<lparr>parent := Some self\<rparr>)"
  have sr: "same_rects (cell_at h) ?cs'" by (rule same_rects_parent)
  have key: "cell_key ?cs' = cell_key (cell_at h)" by (rule same_rects_facts(4)[OF sr])
  have fill: "fill_all ?cs' = fill_all (cell_at h)"
    by (intro ext) (rule fill_all_same_rects[OF sr])
  show ?thesis
    using assms(1,2,4) unfolding add_cell_def Let_def assms(3)
    by (simp add: key fill split: option.splits)
qed

lemma add_cell_success:
  assumes inv: "table_inv (cell_at h) (table_at h self)"
    and inside: "contains (table_at h self) (cell_at h cell)"
    and free: "check_rows (board (table_at h self))
       [top_rect (cell_at h cell)..bottom (cell_at h cell)]
       [left (cell_at h cell)..right (cell_at h cell)] = None"
  shows "\<exists>T'. add_cell self cell h =
           (Inr self,
            h\<lparr>cell_at := (cell_at h)(cell := (cell_at h cell)\<lparr>parent := Some self\<rparr>),
              table_at := (table_at h)(self := T')\<rparr>) \<and>
           table_inv (cell_at h) T' \<and>
           cells T' = sort_key (cell_key (cell_at h)) (cells (table_at h self) @ [cell]) \<and>
           width T' = width (table_at h self) \<and> height T' = height (table_at h self)"
proof -
  define ys where "ys = sort_key (cell_key (cell_at h)) (cells (table_at h self) @ [cell])"
  from rebuild_inv[OF inv inside free ys_def]
  obtain T' where T': "fill_all (cell_at h) (List.enumerate 0 ys)
       ((table_at h self)\<lparr>cells := ys, occupied_area := 0\<rparr>) = (None, T')"
    "table_inv (cell_at h) T'" "cells T' = ys" "width T' = width (table_at h self)"
    "height T' = height (table_at h self)"
    by blast
  show ?thesis
    using add_cell_commit[OF inside free ys_def T'(1)] T'(2-5) ys_def by auto
qed

lemma heap_inv_fresh: "fresh_heap h \<Longrightarrow> heap_inv h"
  unfolding fresh_heap_def heap_inv_def
proof (intro conjI allI)
  fix c assume a: "(\<forall>t. \<exists>row_num col_num. 0 \<le> row_num \<and> 0 \<le> col_num \<and>
            table_at h t = Table_init row_num col_num) \<and>
     (\<forall>c. \<exists>rect. 0 \<le> width rect \<and> 0 \<le> height rect \<and> cell_at h c = Cell_init rect) \<and>
     (\<forall>p. paragraph_parent (paragraph_at h p) = None)"
  then obtain rect where "0 \<le> width rect" "0 \<le> height rect" "cell_at h c = Cell_init rect"
    by blast
  then show "0 \<le> width (cell_at h c)" "0 \<le> height (cell_at h c)"
    by (simp_all add: Cell_init_def)
next
  fix t assume a: "(\<forall>t. \<exists>row_num col_num. 0 \<le> row_num \<and> 0 \<le> col_num \<and>
            table_at h t = Table_init row_num col_num) \<and>
     (\<forall>c. \<exists>rect. 0 \<le> width rect \<and> 0 \<le> height rect \<and> cell_at h c = Cell_init rect) \<and>
     (\<forall>p. paragraph_parent (paragraph_at h p) = None)"
  then obtain row_num col_num where "0 \<le> row_num" "0 \<le> col_num"
    "table_at h t = Table_init row_num col_num"
    by blast
  then show "table_inv (cell_at h) (table_at h t)"
    by (simp add: table_inv_init)
qed

lemma heap_inv_add_cell:
  assumes "heap_inv h"
  shows "heap_inv (snd (add_cell self cell h))"
proof (cases "contains (table_at h self) (cell_at h cell)")
  case False
  then show ?thesis using assms by (simp add: add_cell_NotInside)
next
  case True
  show ?thesis
  proof (cases "check_rows (board (table_at h self))
       [top_rect (cell_at h cell)..bottom (cell_at h cell)]
       [left (cell_at h cell)..right (cell_at h cell)]")
    case (Some e)
    then show ?thesis using assms True by (simp add: add_cell_check_fails)
  next
    case None
    have inv: "table_inv (cell_at h) (table_at h self)"
      using assms by (simp add: heap_inv_def)
    let ?cs' = "(cell_at h)(cell := (cell_at h cell)\<lparr>parent := Some self\<rparr>)"
    from add_cell_success[OF inv True None]
    obtain T' where T': "add_cell self cell h =
           (Inr self, h\<lparr>cell_at := ?cs', table_at := (table_at h)(self := T')\<rparr>)"
      "table_inv (cell_at h) T'"
      by blast
    have sr: "same_rects (cell_at h) ?cs'" by (rule same_rects_parent)
    have "\<forall>t. table_inv ?cs' (((table_at h)(self := T')) t)"
      using T'(2) assms by (simp add: table_inv_same_rects[OF sr] heap_inv_def)
    moreover have "\<forall>c. 0 \<le> width (?cs' c) \<and> 0 \<le> height (?cs' c)"
      using assms by (simp add: heap_inv_def)
    ultimately show ?thesis
      unfolding T'(1) heap_inv_def by simp
  qed
qed

lemma heap_inv_append_paragraph:
  assumes "heap_inv h"
  shows "heap_inv (snd (append_paragraph self paragraph h))"
proof (cases "paragraph_parent (paragraph_at h paragraph) \<noteq> None")
  case True
  then show ?thesis using assms by (simp add: append_paragraph_def)
next
  case False
  let ?cs' = "(cell_at h)(self :=
     (cell_at h self)\<lparr>paragraphs := paragraphs (cell_at h self) @ [paragraph]\<rparr>)"
  have sr: "same_rects (cell_at h) ?cs'" by (rule same_rects_paragraphs)
  have "\<forall>t. table_inv ?cs' (table_at h t)"
    using assms by (simp add: table_inv_same_rects[OF sr] heap_inv_def)
  moreover have "\<forall>c. 0 \<le> width (?cs' c) \<and> 0 \<le> height (?cs' c)"
    using assms by (simp add: heap_inv_def)
  ultimately show ?thesis
    using False by (simp add: append_paragraph_def Let_def heap_inv_def)
qed

lemma reachable_heap_inv: "reachable h \<Longrightarrow> heap_inv h"
  by (induction rule: reachable.induct)
     (simp_all add: heap_inv_fresh heap_inv_add_cell heap_inv_append_paragraph)

subsection \<open>Occupied area and coverage\<close>

lemma in_grid: "(row, col) \<in> grid T \<longleftrightarrow> 0 \<le> row \<and> row < height T \<and> 0 \<le> col \<and> col < width T"
  by (auto simp: grid_def)

lemma card_grid: "0 \<le> width T \<Longrightarrow> 0 \<le> height T \<Longrightarrow> int (card (grid T)) = area T"
  by (simp add: grid_def area_def card_cartesian_product nat_mult_distrib mult.commute)

lemma cell_points: "{(row, col). contains_point C col row} =
    {top_rect C..bottom C} \<times> {left C..right C}"
  by (auto simp: contains_point_def)

lemma area_card:
  assumes "0 \<le> width C" "0 \<le> height C"
  shows "area C = int (card {(row, col). contains_point C col row})"
proof -
  have "card {top_rect C..bottom C} = nat (height C)" "card {left C..right C} = nat (width C)"
    by (simp_all add: bottom_def right_def)
  then show ?thesis
    using assms by (simp add: cell_points card_cartesian_product area_def mult.commute)
qed

lemma area_sum_grid:
  assumes "0 \<le> width C" "0 \<le> height C" "contains T C" "left T = 0" "top_rect T = 0"
  shows "area C = int (\<Sum>p\<in>grid T. if contains_point C (snd p) (fst p) then 1 else 0)"
proof -
  let ?S = "{(row, col). contains_point C col row}"
  have sub: "?S \<subseteq> grid T"
    using assms(3-5) by (auto simp: in_grid contains_def contains_point_def right_def bottom_def)
  have fin: "finite (grid T)" by (simp add: grid_def)
  have "card ?S = card (grid T \<inter> ?S)" using sub by (simp add: Int_absorb1)
  also have "\<dots> = (\<Sum>p\<in>grid T \<inter> ?S. 1)" by simp
  also have "\<dots> = (\<Sum>p\<in>grid T. if p \<in> ?S then 1 else 0)"
    using fin by (rule sum.inter_restrict)
  also have "\<dots> = (\<Sum>p\<in>grid T. if contains_point C (snd p) (fst p) then 1 else 0)"
    by (rule sum.cong) (auto simp: case_prod_unfold)
  finally show ?thesis using area_card[OF assms(1,2)] by simp
qed

lemma areas_sum_grid:
  assumes "\<forall>c\<in>set xs. 0 \<le> width (cs c) \<and> 0 \<le> height (cs c) \<and> contains T (cs c)"
    "left T = 0" "top_rect T = 0"
  shows "sum_list (map (\<lambda>c. area (cs c)) xs) =
           int (\<Sum>p\<in>grid T. length (covering cs xs (fst p) (snd p)))"
  using assms(1)
proof (induction xs)
  case Nil
  then show ?case by (simp add: covering_def)
next
  case (Cons x xs)
  have x: "0 \<le> width (cs x)" "0 \<le> height (cs x)" "contains T (cs x)"
    using Cons.prems by simp_all
  have "(\<Sum>p\<in>grid T. length (covering cs (x # xs) (fst p) (snd p))) =
      (\<Sum>p\<in>grid T. (if contains_point (cs x) (snd p) (fst p) then 1 else 0) +
          length (covering cs xs (fst p) (snd p)))"
    by (rule sum.cong) (simp_all add: covering_def)
  also have "\<dots> = (\<Sum>p\<in>grid T. if contains_point (cs x) (snd p) (fst p) then 1 else 0) +
      (\<Sum>p\<in>grid T. length (covering cs xs (fst p) (snd p)))"
    by (rule sum.distrib)
  finally show ?case
    using Cons.IH Cons.prems area_sum_grid[OF x assms(2,3)] by simp
qed

lemma sum_full:
  fixes f :: "'a \<Rightarrow> nat"
  assumes "finite A" "\<forall>p\<in>A. f p \<le> 1"
  shows "sum f A = card A \<longleftrightarrow> (\<forall>p\<in>A. f p = 1)"
proof
  assume all: "\<forall>p\<in>A. f p = 1"
  then show "sum f A = card A" by simp
next
  assume eq: "sum f A = card A"
  show "\<forall>p\<in>A. f p = 1"
  proof (rule ccontr)
    assume "\<not> (\<forall>p\<in>A. f p = 1)"
    then obtain q where q: "q \<in> A" "f q = 0" using assms(2) by (metis le_Suc_eq le_zero_eq One_nat_def)
    have "sum f A = sum f (A - {q}) + f q"
      using assms(1) q(1) by (simp add: sum.remove)
    also have "\<dots> \<le> card (A - {q})"
      using sum_bounded_above[of "A - {q}" f 1] assms(2) q(2) by simp
    also have "\<dots> < card A" by (rule card_Diff1_less[OF assms(1) q(1)])
    finally show False using eq by simp
  qed
qed

lemma ready_iff_covered:
  assumes inv: "table_inv cs T" and wf: "\<forall>c. 0 \<le> width (cs c) \<and> 0 \<le> height (cs c)"
  shows "ready_to_move T \<longleftrightarrow>
     (\<forall>row col. 0 \<le> row \<and> row < height T \<and> 0 \<le> col \<and> col < width T \<longrightarrow>
        length (covering cs (cells T) row col) = 1)"
proof -
  have orig: "left T = 0" "top_rect T = 0" and nonneg: "0 \<le> width T" "0 \<le> height T"
    and inside: "\<forall>c\<in>set (cells T). contains T (cs c)"
    and count: "\<forall>row col. length (covering cs (cells T) row col) \<le> 1"
    and occ: "occupied_area T = sum_list (map (\<lambda>c. area (cs c)) (cells T))"
    using inv by (simp_all add: table_inv_def)
  define S where "S = (\<Sum>p\<in>grid T. length (covering cs (cells T) (fst p) (snd p)))"
  have "occupied_area T = int S"
    unfolding S_def using areas_sum_grid[OF _ orig, of "cells T" cs] inside wf occ by simp
  moreover have "area T = int (card (grid T))"
    using card_grid[OF nonneg] by simp
  ultimately have "ready_to_move T \<longleftrightarrow> S = card (grid T)"
    by (simp add: ready_to_move_def)
  then have "ready_to_move T \<longleftrightarrow>
      (\<Sum>p\<in>grid T. length (covering cs (cells T) (fst p) (snd p))) = card (grid T)"
    by (simp add: S_def)
  also have "\<dots> \<longleftrightarrow> (\<forall>p\<in>grid T. length (covering cs (cells T) (fst p) (snd p)) = 1)"
    using count by (intro sum_full) (simp_all add: grid_def)
  also have "\<dots> \<longleftrightarrow> (\<forall>row col. 0 \<le> row \<and> row < height T \<and> 0 \<le> col \<and> col < width T \<longrightarrow>
        length (covering cs (cells T) row col) = 1)"
    by (auto simp: in_grid[symmetric])
  finally show ?thesis .
qed

subsection \<open>Looking a cell up\<close>

lemma table_point_in_grid:
  assumes "table_inv cs T" "contains_point T x y"
  shows "0 \<le> y \<and> y < height T \<and> 0 \<le> x \<and> x < width T"
  using assms by (auto simp: table_inv_def contains_point_def right_def bottom_def)

lemma grid_point_in_table:
  assumes "table_inv cs T" "0 \<le> y \<and> y < height T \<and> 0 \<le> x \<and> x < width T"
  shows "contains_point T x y"
  using assms by (auto simp: table_inv_def contains_point_def right_def bottom_def)

lemma board_get_registered:
  assumes inv: "table_inv cs T"
    and g: "0 \<le> row \<and> row < height T \<and> 0 \<le> col \<and> col < width T"
  shows "board_get (board T) row col = Inr (board_at (board T) row col)"
    and "registered cs T row col"
  using inv g board_get_in_range[of "board T" "height T" "width T" row col]
  by (simp_all add: table_inv_def)

lemma covering_Nil_iff:
  "covering cs xs row col = [] \<longleftrightarrow> (\<forall>i<length xs. \<not> contains_point (cs (xs ! i)) col row)"
  by (simp add: covering_def filter_empty_conv all_set_conv_all_nth)

lemma ready_lookup:
  assumes inv: "table_inv cs T" and wf: "\<forall>c. 0 \<le> width (cs c) \<and> 0 \<le> height (cs c)"
    and ready: "ready_to_move T" and pt: "contains_point T x y"
  shows "\<exists>v. board_get (board T) y x = Inr v \<and> 0 \<le> v \<and> v < int (length (cells T)) \<and>
           getitem (cells T) v = Inr (cells T ! nat v) \<and>
           contains_point (cs (cells T ! nat v)) x y"
proof -
  have g: "0 \<le> y \<and> y < height T \<and> 0 \<le> x \<and> x < width T"
    using table_point_in_grid[OF inv pt] .
  have "length (covering cs (cells T) y x) = 1"
    using ready_iff_covered[OF inv wf] ready g by simp
  then have "covering cs (cells T) y x \<noteq> []" by auto
  then have "0 \<le> board_at (board T) y x \<and> board_at (board T) y x < int (length (cells T)) \<and>
      contains_point (cs (cells T ! nat (board_at (board T) y x))) x y"
    using board_get_registered(2)[OF inv g] by (simp add: registered_def)
  then show ?thesis
    using board_get_registered(1)[OF inv g] by (simp add: getitem_in_range)
qed

lemma probe_outside:
  "\<not> contains_point C (fst (probe C d)) (snd (probe C d))"
  by (cases d) (simp_all add: contains_point_def right_def bottom_def)

lemma move_ready:
  assumes inv: "table_inv (cell_at h) (table_at h self)"
    and wf: "\<forall>c. 0 \<le> width (cell_at h c) \<and> 0 \<le> height (cell_at h c)"
    and ready: "ready_to_move (table_at h self)"
    and own: "parent (cell_at h cell) = Some self"
    and pr: "probe (cell_at h cell) d = (x, y)"
  shows "move self cell d h =
     (if contains_point (table_at h self) x y
      then Inr (Some (cells (table_at h self) ! nat (board_at (board (table_at h self)) y x)))
      else Inr None)"
    and "contains_point (table_at h self) x y \<Longrightarrow>
      contains_point
        (cell_at h (cells (table_at h self) ! nat (board_at (board (table_at h self)) y x))) x y \<and>
      0 \<le> board_at (board (table_at h self)) y x \<and>
      board_at (board (table_at h self)) y x < int (length (cells (table_at h self)))"
proof -
  have look: "board_get (board (table_at h self)) y x = Inr (board_at (board (table_at h self)) y x) \<and>
      0 \<le> board_at (board (table_at h self)) y x \<and>
      board_at (board (table_at h self)) y x < int (length (cells (table_at h self))) \<and>
      getitem (cells (table_at h self)) (board_at (board (table_at h self)) y x) =
        Inr (cells (table_at h self) ! nat (board_at (board (table_at h self)) y x)) \<and>
      contains_point
        (cell_at h (cells (table_at h self) ! nat (board_at (board (table_at h self)) y x))) x y"
    if "contains_point (table_at h self) x y"
  proof -
    from ready_lookup[OF inv wf ready that] obtain v where
      v: "board_get (board (table_at h self)) y x = Inr v" "0 \<le> v"
      "v < int (length (cells (table_at h self)))"
      "getitem (cells (table_at h self)) v = Inr (cells (table_at h self) ! nat v)"
      "contains_point (cell_at h (cells (table_at h self) ! nat v)) x y"
      by blast
    have "board_get (board (table_at h self)) y x = Inr (board_at (board (table_at h self)) y x)"
      using board_get_registered(1)[OF inv] table_point_in_grid[OF inv that] by simp
    then have "v = board_at (board (table_at h self)) y x" using v(1) by simp
    then show ?thesis using v by simp
  qed
  show "move self cell d h =
     (if contains_point (table_at h self) x y
      then Inr (Some (cells (table_at h self) ! nat (board_at (board (table_at h self)) y x)))
      else Inr None)"
    using ready own pr look by (simp add: move_def Let_def)
  show "contains_point (table_at h self) x y \<Longrightarrow>
      contains_point
        (cell_at h (cells (table_at h self) ! nat (board_at (board (table_at h self)) y x))) x y \<and>
      0 \<le> board_at (board (table_at h self)) y x \<and>
      board_at (board (table_at h self)) y x < int (length (cells (table_at h self)))"
    using look by simp
qed

section \<open>Cell.append_paragraph\<close>

text \<open>
  C8. \<^verbatim>\<open>append_paragraph\<close> raises the ownership error exactly when the paragraph already
  has a parent, whichever cell it is called on, and then leaves the store as it was;
  otherwise it returns the cell itself, makes the cell the paragraph's parent and puts
  the paragraph at the end of the cell's paragraphs, changing nothing else.
\<close>

theorem append_paragraph_spec:
  "(isl (fst (append_paragraph self paragraph h)) \<longleftrightarrow>
      paragraph_parent (paragraph_at h paragraph) \<noteq> None) \<and>
   (if paragraph_parent (paragraph_at h paragraph) \<noteq> None
    then append_paragraph self paragraph h = (Inl HasParent, h)
    else fst (append_paragraph self paragraph h) = Inr self \<and>
         paragraph_at (snd (append_paragraph self paragraph h)) =
           (paragraph_at h)(paragraph :=
              (paragraph_at h paragraph)\<lparr>paragraph_parent := Some self\<rparr>) \<and>
         cell_at (snd (append_paragraph self paragraph h)) =
           (cell_at h)(self :=
              (cell_at h self)\<lparr>paragraphs := paragraphs (cell_at h self) @ [paragraph]\<rparr>) \<and>
         table_at (snd (append_paragraph self paragraph h)) = table_at h)"
  by (simp add: append_paragraph_def Let_def)

theorem append_paragraph_spec_witness:
  "fst (append_paragraph 0 5 example_heap) = Inr 0 \<and>
   paragraphs (cell_at (snd (append_paragraph 0 5 example_heap)) 0) = [5] \<and>
   paragraph_parent (paragraph_at (snd (append_paragraph 0 5 example_heap)) 5) = Some 0 \<and>
   append_paragraph 1 5 (snd (append_paragraph 0 5 example_heap)) =
     (Inl HasParent, snd (append_paragraph 0 5 example_heap)) \<and>
   append_paragraph 0 5 (snd (append_paragraph 0 5 example_heap)) =
     (Inl HasParent, snd (append_paragraph 0 5 example_heap))"
proof -
  have fresh: "paragraph_parent (paragraph_at example_heap 5) = None"
    by (simp add: example_heap_def)
  have first: "fst (append_paragraph 0 5 example_heap) = Inr 0"
    "paragraph_at (snd (append_paragraph 0 5 example_heap)) =
       (paragraph_at example_heap)(5 :=
          (paragraph_at example_heap 5)\<lparr>paragraph_parent := Some 0\<rparr>)"
    "cell_at (snd (append_paragraph 0 5 example_heap)) =
       (cell_at example_heap)(0 :=
          (cell_at example_heap 0)\<lparr>paragraphs := paragraphs (cell_at example_heap 0) @ [5]\<rparr>)"
    using append_paragraph_spec [of 0 5 example_heap] fresh by simp_all
  have owned:
    "paragraph_parent (paragraph_at (snd (append_paragraph 0 5 example_heap)) 5) = Some 0"
    by (simp add: first(2))
  have empty: "paragraphs (cell_at example_heap 0) = []"
    by (simp add: example_heap_def Cell_init_def)
  have second: "append_paragraph 1 5 (snd (append_paragraph 0 5 example_heap)) =
     (Inl HasParent, snd (append_paragraph 0 5 example_heap))"
    using append_paragraph_spec [of 1 5 "snd (append_paragraph 0 5 example_heap)"] owned
    by simp
  have again: "append_paragraph 0 5 (snd (append_paragraph 0 5 example_heap)) =
     (Inl HasParent, snd (append_paragraph 0 5 example_heap))"
    using append_paragraph_spec [of 0 5 "snd (append_paragraph 0 5 example_heap)"] owned
    by simp
  show ?thesis
    using first(1) owned second again by (simp add: first(3) empty)
qed

section \<open>Table.add_cell: the cell sequence and the board\<close>

lemma fresh_example_heap: "fresh_heap example_heap"
  unfolding fresh_heap_def
proof (intro conjI allI)
  fix t show "\<exists>row_num col_num. 0 \<le> row_num \<and> 0 \<le> col_num \<and>
      table_at example_heap t = Table_init row_num col_num"
    by (intro exI[of _ 2]) (simp add: example_heap_def)
next
  fix c show "\<exists>rect. 0 \<le> width rect \<and> 0 \<le> height rect \<and>
      cell_at example_heap c = Cell_init rect"
    by (intro exI[of _ "example_rect c"]) (simp add: example_heap_def example_rect_def)
next
  fix p show "paragraph_parent (paragraph_at example_heap p) = None"
    by (simp add: example_heap_def)
qed

lemma reachable_tiled_heap: "reachable tiled_heap"
  unfolding tiled_heap_def
  by (intro reachable.add_cell reachable.fresh fresh_example_heap)

lemma tiled_table:
  "table_at tiled_heap 0 =
     \<lparr>left = 0, top_rect = 0, width = 2, height = 2, table_parent = None,
      cells = [0, 1, 2], occupied_area = 4, board = [[0, 0], [1, 2]]\<rparr>"
  by code_simp

lemma tiled_cells:
  "cell_at tiled_heap 0 = \<lparr>left = 0, top_rect = 0, width = 2, height = 1, parent = Some 0, paragraphs = []\<rparr>"
  "cell_at tiled_heap (Suc 0) = \<lparr>left = 0, top_rect = 1, width = 1, height = 1, parent = Some 0, paragraphs = []\<rparr>"
  "cell_at tiled_heap 2 = \<lparr>left = 1, top_rect = 1, width = 1, height = 1, parent = Some 0, paragraphs = []\<rparr>"
  by code_simp+

lemma board_reads:
  assumes inv: "table_inv cs T"
    and g: "0 \<le> row \<and> row < height T \<and> 0 \<le> col \<and> col < width T"
  shows "(\<forall>i<length (cells T).
          board_get (board T) row col = Inr (int i) \<longleftrightarrow>
          contains_point (cs (cells T ! i)) col row) \<and>
       (board_get (board T) row col = Inr UNOCCUPIED_CELL \<longleftrightarrow>
          (\<forall>i<length (cells T). \<not> contains_point (cs (cells T ! i)) col row))"
proof -
  have unique: "length (covering cs (cells T) row col) \<le> 1" for row col
    using inv by (simp add: table_inv_def)
  define v where "v = board_at (board T) row col"
  have get: "board_get (board T) row col = Inr v"
    using board_get_registered(1)[OF inv g] by (simp add: v_def)
  have reg: "(v = UNOCCUPIED_CELL \<and> covering cs (cells T) row col = []) \<or>
      (0 \<le> v \<and> v < int (length (cells T)) \<and> contains_point (cs (cells T ! nat v)) col row)"
    using board_get_registered(2)[OF inv g] unfolding registered_def v_def .
  from reg show ?thesis
  proof (elim disjE conjE)
    assume free: "v = UNOCCUPIED_CELL" "covering cs (cells T) row col = []"
    have none: "\<forall>i<length (cells T). \<not> contains_point (cs (cells T ! i)) col row"
      using free(2) by (simp only: covering_Nil_iff)
    have "v \<noteq> int i" for i using free(1) by (simp add: UNOCCUPIED_CELL_def)
    then have a: "\<forall>i<length (cells T).
        board_get (board T) row col = Inr (int i) \<longleftrightarrow>
        contains_point (cs (cells T ! i)) col row"
      using none by (simp add: get)
    have b: "board_get (board T) row col = Inr UNOCCUPIED_CELL \<longleftrightarrow>
        (\<forall>i<length (cells T). \<not> contains_point (cs (cells T ! i)) col row)"
      using none free(1) by (simp add: get)
    show ?thesis using a b by (rule conjI)
  next
    assume taken: "0 \<le> v" "v < int (length (cells T))"
      "contains_point (cs (cells T ! nat v)) col row"
    have idx: "nat v < length (cells T)" using taken(1,2) by simp
    have one: "i = nat v"
      if "i < length (cells T)" "contains_point (cs (cells T ! i)) col row" for i
      using covering_unique[OF unique that(1) idx that(2) taken(3)] .
    have a: "\<forall>i<length (cells T).
        board_get (board T) row col = Inr (int i) \<longleftrightarrow>
        contains_point (cs (cells T ! i)) col row"
    proof (intro allI impI)
      fix i assume i: "i < length (cells T)"
      show "board_get (board T) row col = Inr (int i) \<longleftrightarrow>
        contains_point (cs (cells T ! i)) col row"
      proof
        assume "board_get (board T) row col = Inr (int i)"
        then have "v = int i" using get by simp
        then have "nat v = i" by simp
        then show "contains_point (cs (cells T ! i)) col row" using taken(3) by simp
      next
        assume "contains_point (cs (cells T ! i)) col row"
        then have "i = nat v" using one[OF i] by simp
        then have "int i = v" using taken(1) by simp
        then show "board_get (board T) row col = Inr (int i)" using get by simp
      qed
    qed
    have "v \<noteq> UNOCCUPIED_CELL" using taken(1) by (simp add: UNOCCUPIED_CELL_def)
    then have l: "board_get (board T) row col \<noteq> Inr UNOCCUPIED_CELL" using get by simp
    have r: "\<not> (\<forall>i<length (cells T). \<not> contains_point (cs (cells T ! i)) col row)"
      using idx taken(3) by blast
    have b: "board_get (board T) row col = Inr UNOCCUPIED_CELL \<longleftrightarrow>
        (\<forall>i<length (cells T). \<not> contains_point (cs (cells T ! i)) col row)"
      using l r by simp
    show ?thesis using a b by (rule conjI)
  qed
qed

lemma cell_in_grid:
  assumes inv: "table_inv cs T" and c: "c \<in> set (cells T)"
    and cp: "contains_point (cs c) col row"
  shows "0 \<le> row \<and> row < height T \<and> 0 \<le> col \<and> col < width T"
proof -
  have "contains T (cs c)" "left T = 0" "top_rect T = 0"
    using inv c by (simp_all add: table_inv_def)
  then show ?thesis
    using cp by (auto simp: contains_def contains_point_def right_def bottom_def)
qed

lemma check_rows_free_iff:
  "check_rows b [top_rect C..bottom C] [left C..right C] = None \<longleftrightarrow>
     (\<forall>row col. contains_point C col row \<longrightarrow> board_get b row col = Inr UNOCCUPIED_CELL)"
  by (auto simp: check_rows_None contains_point_def)

lemma add_cell_returns_iff:
  assumes inv: "table_inv (cell_at h) (table_at h self)"
  shows "\<not> isl (fst (add_cell self cell h)) \<longleftrightarrow>
     contains (table_at h self) (cell_at h cell) \<and>
     check_rows (board (table_at h self))
       [top_rect (cell_at h cell)..bottom (cell_at h cell)]
       [left (cell_at h cell)..right (cell_at h cell)] = None"
proof (cases "contains (table_at h self) (cell_at h cell)")
  case False
  then show ?thesis by (simp add: add_cell_NotInside)
next
  case True
  show ?thesis
  proof (cases "check_rows (board (table_at h self))
       [top_rect (cell_at h cell)..bottom (cell_at h cell)]
       [left (cell_at h cell)..right (cell_at h cell)]")
    case (Some e)
    then show ?thesis using add_cell_check_fails[OF True Some] by simp
  next
    case None
    from add_cell_success[OF inv True None] have "\<not> isl (fst (add_cell self cell h))"
      by auto
    then show ?thesis using True None by simp
  qed
qed

text \<open>
  C1. In every store a program can reach, the cell sequence of every table is sorted by
  \<open>(top, left)\<close>, and at every coordinate of a table's grid the board holds the
  position in that sequence of the cell that covers the coordinate, and of no other cell;
  it holds the unoccupied marker exactly where no cell of the sequence covers the
  coordinate. A call of \<^verbatim>\<open>add_cell\<close> in such a store returns exactly when the cell is
  inside the table and every coordinate it covers is unoccupied. It then returns the
  table, the store it leaves is one a program can reach, the table's cell sequence is
  the old one with the cell appended, sorted by \<open>(top, left)\<close>, the table is the cell's
  parent, no rectangle and no other table has changed, and at every coordinate the cell
  covers the new board holds the cell's position in the new sequence. The rebuild does
  not clear the board, and still leaves no stale index.
\<close>

theorem add_cell_sorted_registered:
  assumes "reachable h"
  shows "sorted (map (cell_key (cell_at h)) (cells (table_at h t))) \<and>
    (\<forall>row col. 0 \<le> row \<and> row < height (table_at h t) \<and> 0 \<le> col \<and> col < width (table_at h t) \<longrightarrow>
       (\<forall>i<length (cells (table_at h t)).
          board_get (board (table_at h t)) row col = Inr (int i) \<longleftrightarrow>
          contains_point (cell_at h (cells (table_at h t) ! i)) col row) \<and>
       (board_get (board (table_at h t)) row col = Inr UNOCCUPIED_CELL \<longleftrightarrow>
          (\<forall>i<length (cells (table_at h t)).
             \<not> contains_point (cell_at h (cells (table_at h t) ! i)) col row))) \<and>
    (\<not> isl (fst (add_cell self cell h)) \<longleftrightarrow>
       contains (table_at h self) (cell_at h cell) \<and>
       (\<forall>row col. contains_point (cell_at h cell) col row \<longrightarrow>
          board_get (board (table_at h self)) row col = Inr UNOCCUPIED_CELL)) \<and>
    (\<not> isl (fst (add_cell self cell h)) \<longrightarrow>
       fst (add_cell self cell h) = Inr self \<and>
       reachable (snd (add_cell self cell h)) \<and>
       cells (table_at (snd (add_cell self cell h)) self) =
         sort_key (cell_key (cell_at h)) (cells (table_at h self) @ [cell]) \<and>
       cell \<in> set (cells (table_at (snd (add_cell self cell h)) self)) \<and>
       parent (cell_at (snd (add_cell self cell h)) cell) = Some self \<and>
       same_rects (cell_at h) (cell_at (snd (add_cell self cell h))) \<and>
       width (table_at (snd (add_cell self cell h)) self) = width (table_at h self) \<and>
       height (table_at (snd (add_cell self cell h)) self) = height (table_at h self) \<and>
       (\<forall>t. t \<noteq> self \<longrightarrow> table_at (snd (add_cell self cell h)) t = table_at h t) \<and>
       (\<forall>row col. contains_point (cell_at h cell) col row \<longrightarrow>
          (\<exists>i<length (cells (table_at (snd (add_cell self cell h)) self)).
             cells (table_at (snd (add_cell self cell h)) self) ! i = cell \<and>
             board_get (board (table_at (snd (add_cell self cell h)) self)) row col =
               Inr (int i))))"
proof -
  have hi: "heap_inv h" using reachable_heap_inv[OF assms] .
  have inv: "table_inv (cell_at h) (table_at h t)" for t
    using hi by (simp add: heap_inv_def)
  have srt: "sorted (map (cell_key (cell_at h)) (cells (table_at h t)))"
    using inv[of t] by (simp add: table_inv_def)
  have all: "\<forall>row col. 0 \<le> row \<and> row < height (table_at h t) \<and>
        0 \<le> col \<and> col < width (table_at h t) \<longrightarrow>
       (\<forall>i<length (cells (table_at h t)).
          board_get (board (table_at h t)) row col = Inr (int i) \<longleftrightarrow>
          contains_point (cell_at h (cells (table_at h t) ! i)) col row) \<and>
       (board_get (board (table_at h t)) row col = Inr UNOCCUPIED_CELL \<longleftrightarrow>
          (\<forall>i<length (cells (table_at h t)).
             \<not> contains_point (cell_at h (cells (table_at h t) ! i)) col row))"
    by (intro allI impI) (erule board_reads[OF inv])
  have returns: "\<not> isl (fst (add_cell self cell h)) \<longleftrightarrow>
       contains (table_at h self) (cell_at h cell) \<and>
       (\<forall>row col. contains_point (cell_at h cell) col row \<longrightarrow>
          board_get (board (table_at h self)) row col = Inr UNOCCUPIED_CELL)"
    unfolding add_cell_returns_iff[OF inv] check_rows_free_iff ..
  have success: "fst (add_cell self cell h) = Inr self \<and>
       reachable (snd (add_cell self cell h)) \<and>
       cells (table_at (snd (add_cell self cell h)) self) =
         sort_key (cell_key (cell_at h)) (cells (table_at h self) @ [cell]) \<and>
       cell \<in> set (cells (table_at (snd (add_cell self cell h)) self)) \<and>
       parent (cell_at (snd (add_cell self cell h)) cell) = Some self \<and>
       same_rects (cell_at h) (cell_at (snd (add_cell self cell h))) \<and>
       width (table_at (snd (add_cell self cell h)) self) = width (table_at h self) \<and>
       height (table_at (snd (add_cell self cell h)) self) = height (table_at h self) \<and>
       (\<forall>t. t \<noteq> self \<longrightarrow> table_at (snd (add_cell self cell h)) t = table_at h t) \<and>
       (\<forall>row col. contains_point (cell_at h cell) col row \<longrightarrow>
          (\<exists>i<length (cells (table_at (snd (add_cell self cell h)) self)).
             cells (table_at (snd (add_cell self cell h)) self) ! i = cell \<and>
             board_get (board (table_at (snd (add_cell self cell h)) self)) row col =
               Inr (int i)))"
    if ok: "\<not> isl (fst (add_cell self cell h))"
  proof -
    have inside: "contains (table_at h self) (cell_at h cell)"
      and free: "check_rows (board (table_at h self))
         [top_rect (cell_at h cell)..bottom (cell_at h cell)]
         [left (cell_at h cell)..right (cell_at h cell)] = None"
      using ok add_cell_returns_iff[OF inv, of self cell] by simp_all
    let ?cs' = "(cell_at h)(cell := (cell_at h cell)\<lparr>parent := Some self\<rparr>)"
    from add_cell_success[OF inv inside free]
    obtain T' where eq: "add_cell self cell h =
           (Inr self, h\<lparr>cell_at := ?cs', table_at := (table_at h)(self := T')\<rparr>)"
      and inv': "table_inv (cell_at h) T'"
      and cs: "cells T' = sort_key (cell_key (cell_at h)) (cells (table_at h self) @ [cell])"
      and wh: "width T' = width (table_at h self)" "height T' = height (table_at h self)"
      by blast
    have tab: "table_at (snd (add_cell self cell h)) self = T'"
      and cel: "cell_at (snd (add_cell self cell h)) = ?cs'"
      and res: "fst (add_cell self cell h) = Inr self"
      and others: "\<forall>t. t \<noteq> self \<longrightarrow> table_at (snd (add_cell self cell h)) t = table_at h t"
      by (simp_all add: eq)
    have mem: "cell \<in> set (cells T')" by (simp add: cs)
    have reg: "\<exists>i<length (cells T'). cells T' ! i = cell \<and>
        board_get (board T') row col = Inr (int i)"
      if cp: "contains_point (cell_at h cell) col row" for row col
    proof -
      obtain i where i: "i < length (cells T')" "cells T' ! i = cell"
        using mem by (auto simp: in_set_conv_nth)
      have g: "0 \<le> row \<and> row < height T' \<and> 0 \<le> col \<and> col < width T'"
        using cell_in_grid[OF inv' mem cp] .
      have "board_get (board T') row col = Inr (int i) \<longleftrightarrow>
          contains_point (cell_at h (cells T' ! i)) col row"
        using board_reads[OF inv' g, THEN conjunct1] i(1) by blast
      then have "board_get (board T') row col = Inr (int i)" using cp i(2) by simp
      then show ?thesis using i by blast
    qed
    have a: "reachable (snd (add_cell self cell h))"
      using assms by (rule reachable.add_cell)
    have b: "parent (cell_at (snd (add_cell self cell h)) cell) = Some self"
      by (simp add: cel)
    have c: "same_rects (cell_at h) (cell_at (snd (add_cell self cell h)))"
      unfolding cel by (rule same_rects_parent)
    have d: "\<forall>row col. contains_point (cell_at h cell) col row \<longrightarrow>
          (\<exists>i<length (cells (table_at (snd (add_cell self cell h)) self)).
             cells (table_at (snd (add_cell self cell h)) self) ! i = cell \<and>
             board_get (board (table_at (snd (add_cell self cell h)) self)) row col =
               Inr (int i))"
      unfolding tab using reg by blast
    have e: "cells (table_at (snd (add_cell self cell h)) self) =
         sort_key (cell_key (cell_at h)) (cells (table_at h self) @ [cell])"
      "cell \<in> set (cells (table_at (snd (add_cell self cell h)) self))"
      "width (table_at (snd (add_cell self cell h)) self) = width (table_at h self)"
      "height (table_at (snd (add_cell self cell h)) self) = height (table_at h self)"
      unfolding tab using cs mem wh by simp_all
    show ?thesis
      using res a e(1,2) b c e(3,4) others d by (intro conjI)
  qed
  have last: "\<not> isl (fst (add_cell self cell h)) \<longrightarrow>
       fst (add_cell self cell h) = Inr self \<and>
       reachable (snd (add_cell self cell h)) \<and>
       cells (table_at (snd (add_cell self cell h)) self) =
         sort_key (cell_key (cell_at h)) (cells (table_at h self) @ [cell]) \<and>
       cell \<in> set (cells (table_at (snd (add_cell self cell h)) self)) \<and>
       parent (cell_at (snd (add_cell self cell h)) cell) = Some self \<and>
       same_rects (cell_at h) (cell_at (snd (add_cell self cell h))) \<and>
       width (table_at (snd (add_cell self cell h)) self) = width (table_at h self) \<and>
       height (table_at (snd (add_cell self cell h)) self) = height (table_at h self) \<and>
       (\<forall>t. t \<noteq> self \<longrightarrow> table_at (snd (add_cell self cell h)) t = table_at h t) \<and>
       (\<forall>row col. contains_point (cell_at h cell) col row \<longrightarrow>
          (\<exists>i<length (cells (table_at (snd (add_cell self cell h)) self)).
             cells (table_at (snd (add_cell self cell h)) self) ! i = cell \<and>
             board_get (board (table_at (snd (add_cell self cell h)) self)) row col =
               Inr (int i)))"
    by (rule impI) (rule success)
  show ?thesis using srt all returns last by (intro conjI)
qed

lemma tiled_last_step: "snd (add_cell 0 1 (snd (add_cell 0 0 corner_heap))) = tiled_heap"
  by (simp add: tiled_heap_def corner_heap_def)

lemma reachable_before_tiled: "reachable (snd (add_cell 0 0 corner_heap))"
  unfolding corner_heap_def
  by (intro reachable.add_cell reachable.fresh fresh_example_heap)

lemma last_step_returns: "\<not> isl (fst (add_cell 0 1 (snd (add_cell 0 0 corner_heap))))"
  by code_simp

lemma last_cell_covers: "contains_point (cell_at (snd (add_cell 0 0 corner_heap)) 1) 0 1"
  by code_simp

theorem add_cell_sorted_registered_witness:
  "reachable tiled_heap \<and>
   cells (table_at tiled_heap 0) = [0, 1, 2] \<and>
   map (cell_key (cell_at tiled_heap)) (cells (table_at tiled_heap 0)) = [(0, 0), (1, 0), (1, 1)] \<and>
   sorted (map (cell_key (cell_at tiled_heap)) (cells (table_at tiled_heap 0))) \<and>
   board_get (board (table_at tiled_heap 0)) 0 1 = Inr 0 \<and>
   board_get (board (table_at tiled_heap 0)) 1 1 = Inr 2 \<and>
   reachable (snd (add_cell 0 0 corner_heap)) \<and>
   fst (add_cell 0 1 (snd (add_cell 0 0 corner_heap))) = Inr 0 \<and>
   snd (add_cell 0 1 (snd (add_cell 0 0 corner_heap))) = tiled_heap \<and>
   cells (table_at (snd (add_cell 0 0 corner_heap)) 0) = [0, 2] \<and>
   1 \<in> set (cells (table_at tiled_heap 0)) \<and>
   parent (cell_at tiled_heap 1) = Some 0 \<and>
   board_get (board (table_at tiled_heap 0)) 1 0 = Inr 1 \<and>
   isl (fst (add_cell 0 3 tiled_heap))"
proof -
  note spec = add_cell_sorted_registered[OF reachable_tiled_heap, of 0]
  have cs: "cells (table_at tiled_heap 0) = [0, 1, 2]" by (simp add: tiled_table)
  have keys: "map (cell_key (cell_at tiled_heap)) (cells (table_at tiled_heap 0)) =
      [(0, 0), (1, 0), (1, 1)]"
    unfolding cs by (simp add: cell_key_def tiled_cells)
  have dims: "height (table_at tiled_heap 0) = 2" "width (table_at tiled_heap 0) = 2"
    by (simp_all add: tiled_table)
  have srt: "sorted (map (cell_key (cell_at tiled_heap)) (cells (table_at tiled_heap 0)))"
    using spec by (rule conjunct1)
  have c0: "contains_point (cell_at tiled_heap (cells (table_at tiled_heap 0) ! 0)) 1 0"
    unfolding cs by (simp add: tiled_cells contains_point_def right_def bottom_def)
  have c2: "contains_point (cell_at tiled_heap (cells (table_at tiled_heap 0) ! 2)) 1 1"
    unfolding cs by (simp add: tiled_cells contains_point_def right_def bottom_def)
  have g01: "0 \<le> (0::int) \<and> (0::int) < height (table_at tiled_heap 0) \<and>
      0 \<le> (1::int) \<and> (1::int) < width (table_at tiled_heap 0)"
    by (simp add: dims)
  have g11: "0 \<le> (1::int) \<and> (1::int) < height (table_at tiled_heap 0) \<and>
      0 \<le> (1::int) \<and> (1::int) < width (table_at tiled_heap 0)"
    by (simp add: dims)
  have l0: "0 < length (cells (table_at tiled_heap 0))"
    and l2: "2 < length (cells (table_at tiled_heap 0))"
    by (simp_all add: cs)
  have b01: "board_get (board (table_at tiled_heap 0)) 0 1 = Inr (int 0)"
    using spec[THEN conjunct2, THEN conjunct1, rule_format, OF g01, THEN conjunct1,
        rule_format, OF l0] c0
    by (rule iffD2)
  have b11: "board_get (board (table_at tiled_heap 0)) 1 1 = Inr (int 2)"
    using spec[THEN conjunct2, THEN conjunct1, rule_format, OF g11, THEN conjunct1,
        rule_format, OF l2] c2
    by (rule iffD2)
  have blocked: "isl (fst (add_cell 0 3 tiled_heap))"
  proof -
    have "board_get (board (table_at tiled_heap 0)) 0 0 \<noteq> Inr UNOCCUPIED_CELL"
      by (simp add: tiled_table board_get_def getitem_def py_index_def UNOCCUPIED_CELL_def)
    moreover have "contains_point (cell_at tiled_heap 3) 0 0"
      by code_simp
    ultimately show ?thesis
      using add_cell_sorted_registered[OF reachable_tiled_heap, of 0 0 3,
          THEN conjunct2, THEN conjunct2, THEN conjunct1]
      by blast
  qed
  note step = add_cell_sorted_registered[OF reachable_before_tiled, of 0 0 1,
      THEN conjunct2, THEN conjunct2, THEN conjunct2, rule_format, OF last_step_returns]
  have s1: "fst (add_cell 0 1 (snd (add_cell 0 0 corner_heap))) = Inr 0"
    using step by (rule conjunct1)
  have s2: "1 \<in> set (cells (table_at tiled_heap 0))"
    using step unfolding tiled_last_step by blast
  have s3: "parent (cell_at tiled_heap 1) = Some 0"
    using step unfolding tiled_last_step by blast
  have before: "cells (table_at (snd (add_cell 0 0 corner_heap)) 0) = [0, 2]"
    by code_simp
  have "\<exists>i<length (cells (table_at tiled_heap 0)).
      cells (table_at tiled_heap 0) ! i = 1 \<and>
      board_get (board (table_at tiled_heap 0)) 1 0 = Inr (int i)"
    using step last_cell_covers unfolding tiled_last_step by blast
  then obtain i where i: "i < 3" "[0, 1, 2] ! i = (1::nat)"
    "board_get (board (table_at tiled_heap 0)) 1 0 = Inr (int i)"
    unfolding cs by auto
  have "i = 1" using i(1,2) by (auto simp: nth_Cons' split: if_splits)
  then have s4: "board_get (board (table_at tiled_heap 0)) 1 0 = Inr 1"
    using i(3) by simp
  show ?thesis
    using reachable_tiled_heap cs keys srt b01 b11 reachable_before_tiled s1 tiled_last_step
      before s2 s3 s4 blocked
    by simp
qed

section \<open>Table.ready_to_move and Table.move\<close>

lemma tiled_ready: "ready_to_move (table_at tiled_heap 0)"
  by (simp add: tiled_table ready_to_move_def area_def)

text \<open>
  C9. In every store a program can reach, when a table is ready to move and a coordinate
  lies inside it, \<^verbatim>\<open>board[y][x]\<close> is read without an \<^verbatim>\<open>IndexError\<close>, is not the
  unoccupied marker and is a position of the cell sequence, so that \<^verbatim>\<open>_cells[...]\<close>
  never counts from the end; the cell found is one of the table's cells and covers the
  coordinate.
\<close>

theorem move_lookup_safe:
  assumes "reachable h" "ready_to_move (table_at h self)" "contains_point (table_at h self) x y"
  shows "\<exists>idx. board_get (board (table_at h self)) y x = Inr idx \<and>
           idx \<noteq> UNOCCUPIED_CELL \<and> 0 \<le> idx \<and> idx < int (length (cells (table_at h self))) \<and>
           getitem (cells (table_at h self)) idx = Inr (cells (table_at h self) ! nat idx) \<and>
           cells (table_at h self) ! nat idx \<in> set (cells (table_at h self)) \<and>
           contains_point (cell_at h (cells (table_at h self) ! nat idx)) x y"
proof -
  have hi: "heap_inv h" using reachable_heap_inv[OF assms(1)] .
  have inv: "table_inv (cell_at h) (table_at h self)"
    and wf: "\<forall>c. 0 \<le> width (cell_at h c) \<and> 0 \<le> height (cell_at h c)"
    using hi by (simp_all add: heap_inv_def)
  from ready_lookup[OF inv wf assms(2,3)] obtain v where
    v: "board_get (board (table_at h self)) y x = Inr v" "0 \<le> v"
    "v < int (length (cells (table_at h self)))"
    "getitem (cells (table_at h self)) v = Inr (cells (table_at h self) ! nat v)"
    "contains_point (cell_at h (cells (table_at h self) ! nat v)) x y"
    by blast
  have "v \<noteq> UNOCCUPIED_CELL" using v(2) by (simp add: UNOCCUPIED_CELL_def)
  moreover have "cells (table_at h self) ! nat v \<in> set (cells (table_at h self))"
    using v(2,3) by simp
  ultimately show ?thesis using v by blast
qed

theorem move_lookup_safe_witness:
  "reachable tiled_heap \<and> ready_to_move (table_at tiled_heap 0) \<and>
   contains_point (table_at tiled_heap 0) 1 1 \<and>
   (\<exists>idx. board_get (board (table_at tiled_heap 0)) 1 1 = Inr idx \<and>
           idx \<noteq> UNOCCUPIED_CELL \<and> 0 \<le> idx \<and>
           idx < int (length (cells (table_at tiled_heap 0))) \<and>
           getitem (cells (table_at tiled_heap 0)) idx =
             Inr (cells (table_at tiled_heap 0) ! nat idx) \<and>
           cells (table_at tiled_heap 0) ! nat idx \<in> set (cells (table_at tiled_heap 0)) \<and>
           contains_point (cell_at tiled_heap (cells (table_at tiled_heap 0) ! nat idx)) 1 1)"
proof -
  have pt: "contains_point (table_at tiled_heap 0) 1 1"
    by (simp add: tiled_table contains_point_def right_def bottom_def)
  show ?thesis
    using move_lookup_safe[OF reachable_tiled_heap tiled_ready pt]
      reachable_tiled_heap tiled_ready pt
    by (intro conjI)
qed

text \<open>
  C2. For a table that is ready to move, in a store a program can reach, and a cell whose
  parent is that table: the probe is \<open>(left, top - 1)\<close> for UP, \<open>(left, bottom + 1)\<close>
  for DOWN, \<open>(left - 1, top)\<close> for LEFT and \<open>(right + 1, top)\<close> for RIGHT; \<^verbatim>\<open>move\<close>
  returns the cell the board registers at the probe when the probe lies inside the table
  (the read is in range and the cell covers the probe), and \<^verbatim>\<open>None\<close> otherwise.
  Moving DOWN from the merged top row of the tiled table gives the cell at column 0 of
  the bottom row.
\<close>

theorem move_spec:
  assumes "reachable h" "ready_to_move (table_at h self)" "parent (cell_at h cell) = Some self"
  shows "probe (cell_at h cell) UP = (left (cell_at h cell), top_rect (cell_at h cell) - 1) \<and>
    probe (cell_at h cell) DOWN = (left (cell_at h cell), bottom (cell_at h cell) + 1) \<and>
    probe (cell_at h cell) LEFT = (left (cell_at h cell) - 1, top_rect (cell_at h cell)) \<and>
    probe (cell_at h cell) RIGHT = (right (cell_at h cell) + 1, top_rect (cell_at h cell)) \<and>
    move self cell direction h =
      (case probe (cell_at h cell) direction of
         (x, y) \<Rightarrow>
           if contains_point (table_at h self) x y
           then Inr (Some (cells (table_at h self) ! nat (board_at (board (table_at h self)) y x)))
           else Inr None) \<and>
    (case probe (cell_at h cell) direction of
       (x, y) \<Rightarrow>
         contains_point (table_at h self) x y \<longrightarrow>
           board_get (board (table_at h self)) y x = Inr (board_at (board (table_at h self)) y x) \<and>
           0 \<le> board_at (board (table_at h self)) y x \<and>
           board_at (board (table_at h self)) y x < int (length (cells (table_at h self))) \<and>
           contains_point
             (cell_at h (cells (table_at h self) ! nat (board_at (board (table_at h self)) y x))) x y)"
proof -
  have hi: "heap_inv h" using reachable_heap_inv[OF assms(1)] .
  have inv: "table_inv (cell_at h) (table_at h self)"
    and wf: "\<forall>c. 0 \<le> width (cell_at h c) \<and> 0 \<le> height (cell_at h c)"
    using hi by (simp_all add: heap_inv_def)
  obtain x y where pr: "probe (cell_at h cell) direction = (x, y)"
    by (cases "probe (cell_at h cell) direction")
  note mv = move_ready[OF inv wf assms(2,3) pr]
  have get: "board_get (board (table_at h self)) y x = Inr (board_at (board (table_at h self)) y x)"
    if "contains_point (table_at h self) x y"
    using board_get_registered(1)[OF inv table_point_in_grid[OF inv that]] .
  have a: "move self cell direction h =
      (case probe (cell_at h cell) direction of
         (x, y) \<Rightarrow>
           if contains_point (table_at h self) x y
           then Inr (Some (cells (table_at h self) ! nat (board_at (board (table_at h self)) y x)))
           else Inr None)"
    using mv(1) by (simp add: pr)
  have b: "(case probe (cell_at h cell) direction of
       (x, y) \<Rightarrow>
         contains_point (table_at h self) x y \<longrightarrow>
           board_get (board (table_at h self)) y x = Inr (board_at (board (table_at h self)) y x) \<and>
           0 \<le> board_at (board (table_at h self)) y x \<and>
           board_at (board (table_at h self)) y x < int (length (cells (table_at h self))) \<and>
           contains_point
             (cell_at h (cells (table_at h self) ! nat (board_at (board (table_at h self)) y x))) x y)"
    using mv(2) get by (simp add: pr)
  show ?thesis using a b by simp
qed

theorem move_spec_witness:
  "reachable tiled_heap \<and> ready_to_move (table_at tiled_heap 0) \<and>
   parent (cell_at tiled_heap 0) = Some 0 \<and>
   move 0 0 DOWN tiled_heap = Inr (Some 1) \<and>
   left (cell_at tiled_heap 1) = 0 \<and> top_rect (cell_at tiled_heap 1) = 1"
proof -
  have own: "parent (cell_at tiled_heap 0) = Some 0" by (simp add: tiled_cells)
  have pr: "probe (cell_at tiled_heap 0) DOWN = (0, 1)"
    by (simp add: tiled_cells bottom_def)
  have pt: "contains_point (table_at tiled_heap 0) 0 1"
    by (simp add: tiled_table contains_point_def right_def bottom_def)
  have at: "cells (table_at tiled_heap 0) ! nat (board_at (board (table_at tiled_heap 0)) 1 0) = 1"
    by (simp add: tiled_table board_at_def)
  have "move 0 0 DOWN tiled_heap = Inr (Some 1)"
    using move_spec[OF reachable_tiled_heap tiled_ready own, of DOWN,
        THEN conjunct2, THEN conjunct2, THEN conjunct2, THEN conjunct2, THEN conjunct1]
    unfolding pr by (simp add: pt at)
  moreover have "left (cell_at tiled_heap 1) = 0" "top_rect (cell_at tiled_heap 1) = 1"
    using tiled_cells(2) by simp_all
  ultimately show ?thesis
    using reachable_tiled_heap tiled_ready own by simp
qed

lemma fresh_cell_3: "parent (cell_at tiled_heap 3) = None"
  by code_simp

text \<open>
  C7. For a table that is ready to move, in a store a program can reach, \<^verbatim>\<open>move\<close>
  raises exactly when the cell's parent is not this table; the error is then the
  \<^verbatim>\<open>ValueError\<close> of the parent test whatever the board holds, so no board lookup
  precedes it. \<^verbatim>\<open>move\<close> returns no store: it changes none.
\<close>

theorem move_raises_iff:
  assumes "reachable h" "ready_to_move (table_at h self)"
  shows "(isl (move self cell direction h) \<longleftrightarrow> parent (cell_at h cell) \<noteq> Some self) \<and>
    (parent (cell_at h cell) \<noteq> Some self \<longrightarrow>
       move self cell direction h = Inl NotThisTable \<and>
       (\<forall>b. move self cell direction
              (h\<lparr>table_at := (table_at h)(self := (table_at h self)\<lparr>board := b\<rparr>)\<rparr>) =
            Inl NotThisTable))"
proof (cases "parent (cell_at h cell) = Some self")
  case True
  have hi: "heap_inv h" using reachable_heap_inv[OF assms(1)] .
  have inv: "table_inv (cell_at h) (table_at h self)"
    and wf: "\<forall>c. 0 \<le> width (cell_at h c) \<and> 0 \<le> height (cell_at h c)"
    using hi by (simp_all add: heap_inv_def)
  obtain x y where pr: "probe (cell_at h cell) direction = (x, y)"
    by (cases "probe (cell_at h cell) direction")
  have "\<not> isl (move self cell direction h)"
    using move_ready(1)[OF inv wf assms(2) True pr] by simp
  then show ?thesis using True by simp
next
  case False
  have a: "move self cell direction h = Inl NotThisTable"
    using False assms(2) by (simp add: move_def)
  have b: "move self cell direction
      (h\<lparr>table_at := (table_at h)(self := (table_at h self)\<lparr>board := b\<rparr>)\<rparr>) = Inl NotThisTable"
    for b
    using False assms(2) by (simp add: move_def ready_to_move_def area_def)
  show ?thesis using False a b by simp
qed

theorem move_raises_iff_witness:
  "reachable tiled_heap \<and> ready_to_move (table_at tiled_heap 0) \<and>
   parent (cell_at tiled_heap 3) = None \<and> move 0 3 UP tiled_heap = Inl NotThisTable \<and>
   parent (cell_at tiled_heap 0) = Some 0 \<and> \<not> isl (move 0 0 UP tiled_heap)"
proof -
  have own: "parent (cell_at tiled_heap 0) = Some 0" by (simp add: tiled_cells)
  have "move 0 3 UP tiled_heap = Inl NotThisTable"
    using move_raises_iff[OF reachable_tiled_heap tiled_ready, of 3 UP] fresh_cell_3 by simp
  moreover have "\<not> isl (move 0 0 UP tiled_heap)"
    using move_raises_iff[OF reachable_tiled_heap tiled_ready, of 0 UP] own by simp
  ultimately show ?thesis
    using reachable_tiled_heap tiled_ready fresh_cell_3 own by simp
qed

text \<open>
  C10. For a table that is ready to move, in a store a program can reach, and a cell
  whose parent is that table, \<^verbatim>\<open>move\<close> never returns the cell it was asked about: the
  probe lies outside the cell's own rectangle, and the result is \<^verbatim>\<open>None\<close> or another
  cell.
\<close>

theorem move_not_self:
  assumes "reachable h" "ready_to_move (table_at h self)" "parent (cell_at h cell) = Some self"
  shows "move self cell direction h \<noteq> Inr (Some cell) \<and>
    \<not> contains_point (cell_at h cell)
        (fst (probe (cell_at h cell) direction)) (snd (probe (cell_at h cell) direction)) \<and>
    (move self cell direction h = Inr None \<or>
     (\<exists>c. move self cell direction h = Inr (Some c) \<and> c \<noteq> cell))"
proof -
  have hi: "heap_inv h" using reachable_heap_inv[OF assms(1)] .
  have inv: "table_inv (cell_at h) (table_at h self)"
    and wf: "\<forall>c. 0 \<le> width (cell_at h c) \<and> 0 \<le> height (cell_at h c)"
    using hi by (simp_all add: heap_inv_def)
  obtain x y where pr: "probe (cell_at h cell) direction = (x, y)"
    by (cases "probe (cell_at h cell) direction")
  note mv = move_ready[OF inv wf assms(2,3) pr]
  have out: "\<not> contains_point (cell_at h cell) x y"
    using probe_outside[of "cell_at h cell" direction] by (simp add: pr)
  have res: "move self cell direction h = Inr None \<or>
     (\<exists>c. move self cell direction h = Inr (Some c) \<and> c \<noteq> cell)"
  proof (cases "contains_point (table_at h self) x y")
    case False
    then show ?thesis using mv(1) by simp
  next
    case True
    let ?c = "cells (table_at h self) ! nat (board_at (board (table_at h self)) y x)"
    have "contains_point (cell_at h ?c) x y" using mv(2)[OF True] by simp
    then have "?c \<noteq> cell" using out by auto
    moreover have "move self cell direction h = Inr (Some ?c)" using mv(1) True by simp
    ultimately show ?thesis by simp
  qed
  then have "move self cell direction h \<noteq> Inr (Some cell)" by auto
  then show ?thesis using out res by (simp add: pr)
qed

theorem move_not_self_witness:
  "reachable tiled_heap \<and> ready_to_move (table_at tiled_heap 0) \<and>
   parent (cell_at tiled_heap 0) = Some 0 \<and>
   move 0 0 DOWN tiled_heap \<noteq> Inr (Some 0) \<and>
   move 0 0 UP tiled_heap \<noteq> Inr (Some 0)"
proof -
  have own: "parent (cell_at tiled_heap 0) = Some 0" by (simp add: tiled_cells)
  have "move 0 0 DOWN tiled_heap \<noteq> Inr (Some 0)"
    using move_not_self[OF reachable_tiled_heap tiled_ready own, of DOWN] by (rule conjunct1)
  moreover have "move 0 0 UP tiled_heap \<noteq> Inr (Some 0)"
    using move_not_self[OF reachable_tiled_heap tiled_ready own, of UP] by (rule conjunct1)
  ultimately show ?thesis
    using reachable_tiled_heap tiled_ready own by simp
qed

text \<open>
  C5. \<^verbatim>\<open>ready_to_move\<close> is true exactly when the occupied area equals the table's area;
  in a store a program can reach that is the case exactly when every coordinate of the
  grid is covered by one of the table's cells; and a fresh \<^verbatim>\<open>Table(row_num, col_num)\<close>
  with both numbers non-negative is ready exactly when \<open>row_num * col_num = 0\<close>.
\<close>

theorem ready_to_move_spec:
  "(ready_to_move T \<longleftrightarrow> occupied_area T = area T) \<and>
   (reachable h \<longrightarrow>
      (ready_to_move (table_at h t) \<longleftrightarrow>
         (\<forall>row col. 0 \<le> row \<and> row < height (table_at h t) \<and>
                    0 \<le> col \<and> col < width (table_at h t) \<longrightarrow>
            (\<exists>c\<in>set (cells (table_at h t)). contains_point (cell_at h c) col row)))) \<and>
   (0 \<le> row_num \<and> 0 \<le> col_num \<longrightarrow>
      ready_to_move (Table_init row_num col_num) = (row_num * col_num = 0))"
proof (intro conjI impI)
  show "ready_to_move T \<longleftrightarrow> occupied_area T = area T"
    by (simp add: ready_to_move_def)
next
  assume r: "reachable h"
  have hi: "heap_inv h" using reachable_heap_inv[OF r] .
  have inv: "table_inv (cell_at h) (table_at h t)"
    and wf: "\<forall>c. 0 \<le> width (cell_at h c) \<and> 0 \<le> height (cell_at h c)"
    using hi by (simp_all add: heap_inv_def)
  have le: "length (covering (cell_at h) (cells (table_at h t)) row col) \<le> 1" for row col
    using inv by (simp add: table_inv_def)
  have one: "length (covering (cell_at h) (cells (table_at h t)) row col) = 1 \<longleftrightarrow>
      (\<exists>c\<in>set (cells (table_at h t)). contains_point (cell_at h c) col row)" for row col
  proof -
    have "length (covering (cell_at h) (cells (table_at h t)) row col) = 1 \<longleftrightarrow>
        covering (cell_at h) (cells (table_at h t)) row col \<noteq> []"
      using le[of row col] by (cases "covering (cell_at h) (cells (table_at h t)) row col") simp_all
    then show ?thesis by (simp add: covering_def filter_empty_conv)
  qed
  show "ready_to_move (table_at h t) \<longleftrightarrow>
         (\<forall>row col. 0 \<le> row \<and> row < height (table_at h t) \<and>
                    0 \<le> col \<and> col < width (table_at h t) \<longrightarrow>
            (\<exists>c\<in>set (cells (table_at h t)). contains_point (cell_at h c) col row))"
    unfolding ready_iff_covered[OF inv wf] one ..
next
  assume "0 \<le> row_num \<and> 0 \<le> col_num"
  show "ready_to_move (Table_init row_num col_num) = (row_num * col_num = 0)"
    by (auto simp: ready_to_move_def Table_init_def area_def)
qed

theorem ready_to_move_spec_witness:
  "reachable tiled_heap \<and> ready_to_move (table_at tiled_heap 0) \<and>
   (\<exists>c\<in>set (cells (table_at tiled_heap 0)). contains_point (cell_at tiled_heap c) 1 0) \<and>
   ready_to_move (Table_init 0 3) \<and> \<not> ready_to_move (Table_init 2 2)"
proof -
  note spec = ready_to_move_spec[of "table_at tiled_heap 0" tiled_heap 0]
  have cov: "\<forall>row col. 0 \<le> row \<and> row < height (table_at tiled_heap 0) \<and>
                    0 \<le> col \<and> col < width (table_at tiled_heap 0) \<longrightarrow>
            (\<exists>c\<in>set (cells (table_at tiled_heap 0)). contains_point (cell_at tiled_heap c) col row)"
    using spec[of 0 0, THEN conjunct2, THEN conjunct1, rule_format, OF reachable_tiled_heap]
      tiled_ready by (rule iffD1)
  have g: "0 \<le> (0::int) \<and> (0::int) < height (table_at tiled_heap 0) \<and>
      0 \<le> (1::int) \<and> (1::int) < width (table_at tiled_heap 0)"
    by (simp add: tiled_table)
  have c: "\<exists>c\<in>set (cells (table_at tiled_heap 0)). contains_point (cell_at tiled_heap c) 1 0"
    using cov[rule_format, OF g] .
  have "ready_to_move (Table_init 0 3)"
    using ready_to_move_spec[of "Table_init 0 3" example_heap 0 0 3,
        THEN conjunct2, THEN conjunct2] by simp
  moreover have "\<not> ready_to_move (Table_init 2 2)"
    using ready_to_move_spec[of "Table_init 2 2" example_heap 0 2 2,
        THEN conjunct2, THEN conjunct2] by simp
  ultimately show ?thesis
    using reachable_tiled_heap tiled_ready c by simp
qed

section \<open>Table.add_cell: failures and ownership\<close>

lemma check_cols_kind:
  assumes "board_dims b h w" "0 \<le> row" "row < h" "\<forall>col\<in>set cols. 0 \<le> col \<and> col < w"
    "check_cols b row cols = Some e"
  shows "\<exists>col. e = Occupied row col"
  using assms(4,5)
proof (induction cols)
  case Nil
  then show ?case by simp
next
  case (Cons col cols)
  have "board_get b row col = Inr (board_at b row col)"
    using board_get_in_range[OF assms(1-3)] Cons.prems(1) by simp
  then show ?case
    using Cons by (cases "board_at b row col = UNOCCUPIED_CELL") auto
qed

lemma check_rows_kind:
  assumes "board_dims b h w" "\<forall>row\<in>set rows. 0 \<le> row \<and> row < h"
    "\<forall>col\<in>set cols. 0 \<le> col \<and> col < w" "check_rows b rows cols = Some e"
  shows "\<exists>row col. e = Occupied row col"
  using assms(2,4)
proof (induction rows)
  case Nil
  then show ?case by simp
next
  case (Cons row rows)
  show ?case
  proof (cases "check_cols b row cols")
    case None
    then show ?thesis using Cons by simp
  next
    case (Some e')
    then have "e' = e" using Cons.prems(2) by simp
    then show ?thesis
      using check_cols_kind[OF assms(1) _ _ assms(3), of row e] Some Cons.prems(1) by auto
  qed
qed

lemma add_cell_raises_kind:
  assumes inv: "table_inv (cell_at h) (table_at h self)"
    and raises: "fst (add_cell self cell h) = Inl e"
  shows "e = NotInside \<or> (\<exists>row col. e = Occupied row col)"
proof (cases "contains (table_at h self) (cell_at h cell)")
  case False
  then show ?thesis using raises by (simp add: add_cell_NotInside)
next
  case True
  show ?thesis
  proof (cases "check_rows (board (table_at h self))
       [top_rect (cell_at h cell)..bottom (cell_at h cell)]
       [left (cell_at h cell)..right (cell_at h cell)]")
    case None
    from add_cell_success[OF inv True None] have "\<not> isl (fst (add_cell self cell h))"
      by auto
    then show ?thesis using raises by simp
  next
    case (Some e')
    have e: "e' = e" using raises add_cell_check_fails[OF True Some] by simp
    have orig: "left (table_at h self) = 0" "top_rect (table_at h self) = 0"
      and dims: "board_dims (board (table_at h self)) (height (table_at h self))
          (width (table_at h self))"
      using inv by (simp_all add: table_inv_def)
    have rows: "\<forall>row\<in>set [top_rect (cell_at h cell)..bottom (cell_at h cell)].
        0 \<le> row \<and> row < height (table_at h self)"
      using True orig by (auto simp: contains_def bottom_def)
    have cols: "\<forall>col\<in>set [left (cell_at h cell)..right (cell_at h cell)].
        0 \<le> col \<and> col < width (table_at h self)"
      using True orig by (auto simp: contains_def right_def)
    show ?thesis
      using check_rows_kind[OF dims rows cols Some] e by simp
  qed
qed

lemma add_cell_ValueError_unchanged:
  assumes "fst (add_cell self cell h) = Inl e" "is_ValueError e"
  shows "snd (add_cell self cell h) = h"
proof (cases "contains (table_at h self) (cell_at h cell)")
  case False
  then show ?thesis by (simp add: add_cell_NotInside)
next
  case True
  show ?thesis
  proof (cases "check_rows (board (table_at h self))
       [top_rect (cell_at h cell)..bottom (cell_at h cell)]
       [left (cell_at h cell)..right (cell_at h cell)]")
    case (Some e')
    then show ?thesis using add_cell_check_fails[OF True Some] by simp
  next
    case None
    obtain r T' where f: "fill_all (cell_at h)
        (List.enumerate 0 (sort_key (cell_key (cell_at h)) (cells (table_at h self) @ [cell])))
        ((table_at h self)\<lparr>cells := sort_key (cell_key (cell_at h)) (cells (table_at h self) @ [cell]),
           occupied_area := 0\<rparr>) = (r, T')"
      by (cases "fill_all (cell_at h)
        (List.enumerate 0 (sort_key (cell_key (cell_at h)) (cells (table_at h self) @ [cell])))
        ((table_at h self)\<lparr>cells := sort_key (cell_key (cell_at h)) (cells (table_at h self) @ [cell]),
           occupied_area := 0\<rparr>)")
    note res = add_cell_commit[OF True None refl f]
    have "r = Some e" using assms(1) res by (cases r) simp_all
    then have "e = IndexError" using fill_all_error f by blast
    then show ?thesis using assms(2) by simp
  qed
qed

text \<open>
  C3. A call of \<^verbatim>\<open>add_cell\<close> on a cell that is not inside the table raises and returns
  the store it was given; so does every call that raises a \<^verbatim>\<open>ValueError\<close>, in any
  store; and in a store a program can reach a call that raises raises one of the two
  \<^verbatim>\<open>ValueError\<close>s (not inside, or a coordinate taken) and leaves the store, hence the
  board, the occupied area, the cell sequence and the cell's parent, as they were.
\<close>

theorem add_cell_no_partial_commit:
  "(\<not> contains (table_at h self) (cell_at h cell) \<longrightarrow>
      add_cell self cell h = (Inl NotInside, h)) \<and>
   (fst (add_cell self cell h) = Inl e \<and> is_ValueError e \<longrightarrow>
      snd (add_cell self cell h) = h) \<and>
   (reachable h \<and> fst (add_cell self cell h) = Inl e \<longrightarrow>
      (e = NotInside \<or> (\<exists>row col. e = Occupied row col)) \<and>
      snd (add_cell self cell h) = h)"
proof (intro conjI impI)
  assume "\<not> contains (table_at h self) (cell_at h cell)"
  then show "add_cell self cell h = (Inl NotInside, h)" by (rule add_cell_NotInside)
next
  assume "fst (add_cell self cell h) = Inl e \<and> is_ValueError e"
  then show "snd (add_cell self cell h) = h"
    using add_cell_ValueError_unchanged by blast
next
  assume a: "reachable h \<and> fst (add_cell self cell h) = Inl e"
  have inv: "table_inv (cell_at h) (table_at h self)"
    using reachable_heap_inv[of h] a by (simp add: heap_inv_def)
  show kind: "e = NotInside \<or> (\<exists>row col. e = Occupied row col)"
    using add_cell_raises_kind[OF inv] a by blast
  then have "is_ValueError e" by auto
  then show "snd (add_cell self cell h) = h"
    using add_cell_ValueError_unchanged a by blast
qed

lemma tiled_overlap: "fst (add_cell 0 3 tiled_heap) = Inl (Occupied 0 0)"
  by code_simp

lemma tiled_outside: "\<not> contains (table_at tiled_heap 0) (cell_at tiled_heap 4)"
  by code_simp

theorem add_cell_no_partial_commit_witness:
  "reachable tiled_heap \<and>
   add_cell 0 3 tiled_heap = (Inl (Occupied 0 0), tiled_heap) \<and>
   add_cell 0 4 tiled_heap = (Inl NotInside, tiled_heap) \<and>
   parent (cell_at (snd (add_cell 0 3 tiled_heap)) 3) = None"
proof -
  have "snd (add_cell 0 3 tiled_heap) = tiled_heap"
    using add_cell_no_partial_commit[of tiled_heap 0 3 "Occupied 0 0", THEN conjunct2, THEN conjunct2]
      reachable_tiled_heap tiled_overlap by simp
  then have a: "add_cell 0 3 tiled_heap = (Inl (Occupied 0 0), tiled_heap)"
    using tiled_overlap by (simp add: prod_eq_iff)
  have b: "add_cell 0 4 tiled_heap = (Inl NotInside, tiled_heap)"
    using add_cell_no_partial_commit[of tiled_heap 0 4 NotInside, THEN conjunct1] tiled_outside
    by simp
  show ?thesis using reachable_tiled_heap a b fresh_cell_3 by simp
qed

lemma add_cell_Occupied_check:
  assumes "fst (add_cell self cell h) = Inl (Occupied row col)"
  shows "check_rows (board (table_at h self))
       [top_rect (cell_at h cell)..bottom (cell_at h cell)]
       [left (cell_at h cell)..right (cell_at h cell)] = Some (Occupied row col)"
proof (cases "contains (table_at h self) (cell_at h cell)")
  case False
  then show ?thesis using assms by (simp add: add_cell_NotInside)
next
  case True
  show ?thesis
  proof (cases "check_rows (board (table_at h self))
       [top_rect (cell_at h cell)..bottom (cell_at h cell)]
       [left (cell_at h cell)..right (cell_at h cell)]")
    case (Some e')
    then show ?thesis using assms add_cell_check_fails[OF True Some] by simp
  next
    case None
    obtain r T' where f: "fill_all (cell_at h)
        (List.enumerate 0 (sort_key (cell_key (cell_at h)) (cells (table_at h self) @ [cell])))
        ((table_at h self)\<lparr>cells := sort_key (cell_key (cell_at h)) (cells (table_at h self) @ [cell]),
           occupied_area := 0\<rparr>) = (r, T')"
      by (cases "fill_all (cell_at h)
        (List.enumerate 0 (sort_key (cell_key (cell_at h)) (cells (table_at h self) @ [cell])))
        ((table_at h self)\<lparr>cells := sort_key (cell_key (cell_at h)) (cells (table_at h self) @ [cell]),
           occupied_area := 0\<rparr>)")
    note res = add_cell_commit[OF True None refl f]
    have "r = Some (Occupied row col)" using assms res by (cases r) simp_all
    then have "Occupied row col = IndexError" using fill_all_error f by blast
    then show ?thesis by simp
  qed
qed

text \<open>
  C6. When \<^verbatim>\<open>add_cell\<close> raises the overlap error for \<open>(row, col)\<close>, that coordinate is
  covered by the cell and taken on the board, and every coordinate the cell covers that
  comes earlier in row-major order (a row above, or the same row and a column to the
  left) is unoccupied.
\<close>

theorem add_cell_first_conflict:
  assumes "fst (add_cell self cell h) = Inl (Occupied row col)"
  shows "contains_point (cell_at h cell) col row \<and>
    (\<exists>v. board_get (board (table_at h self)) row col = Inr v \<and> v \<noteq> UNOCCUPIED_CELL) \<and>
    (\<forall>row' col'. contains_point (cell_at h cell) col' row' \<and>
         (row' < row \<or> (row' = row \<and> col' < col)) \<longrightarrow>
       board_get (board (table_at h self)) row' col' = Inr UNOCCUPIED_CELL)"
proof -
  let ?C = "cell_at h cell" and ?b = "board (table_at h self)"
  from check_rows_Occupied[OF add_cell_Occupied_check[OF assms]]
  obtain pre post where rows: "[top_rect ?C..bottom ?C] = pre @ row # post"
    and above: "\<forall>r'\<in>set pre. \<forall>c'\<in>set [left ?C..right ?C]. board_get ?b r' c' = Inr UNOCCUPIED_CELL"
    and line: "check_cols ?b row [left ?C..right ?C] = Some (Occupied row col)"
    by blast
  from check_cols_Occupied[OF line]
  obtain pre' post' v where cols: "[left ?C..right ?C] = pre' @ col # post'"
    and before: "\<forall>c'\<in>set pre'. board_get ?b row c' = Inr UNOCCUPIED_CELL"
    and here: "board_get ?b row col = Inr v" "v \<noteq> UNOCCUPIED_CELL"
    by blast
  have row_in: "row \<in> set [top_rect ?C..bottom ?C]" unfolding rows by simp
  have col_in: "col \<in> set [left ?C..right ?C]" unfolding cols by simp
  have inside: "contains_point ?C col row"
    using row_in col_in by (simp add: contains_point_def)
  have pre: "set pre = {top_rect ?C..row - 1}" using upto_before[OF rows] .
  have pre': "set pre' = {left ?C..col - 1}" using upto_before[OF cols] .
  have earlier: "board_get ?b row' col' = Inr UNOCCUPIED_CELL"
    if cp: "contains_point ?C col' row'" and lt: "row' < row \<or> (row' = row \<and> col' < col)"
    for row' col'
  proof (cases "row' < row")
    case True
    have "row' \<in> set pre" using True cp by (simp add: pre contains_point_def)
    moreover have "col' \<in> set [left ?C..right ?C]" using cp by (simp add: contains_point_def)
    ultimately show ?thesis using above by blast
  next
    case False
    then have eq: "row' = row" "col' < col" using lt by simp_all
    have "col' \<in> set pre'" using eq(2) cp by (simp add: pre' contains_point_def)
    then show ?thesis using before eq(1) by blast
  qed
  have all: "\<forall>row' col'. contains_point ?C col' row' \<and>
         (row' < row \<or> (row' = row \<and> col' < col)) \<longrightarrow>
       board_get ?b row' col' = Inr UNOCCUPIED_CELL"
    using earlier by blast
  have ex: "\<exists>v. board_get ?b row col = Inr v \<and> v \<noteq> UNOCCUPIED_CELL"
    using here by blast
  show ?thesis using inside ex all by (intro conjI)
qed

lemma corner_overlap: "fst (add_cell 0 3 corner_heap) = Inl (Occupied 1 1)"
  by code_simp

lemma corner_cell_3:
  "cell_at corner_heap 3 =
     \<lparr>left = 0, top_rect = 0, width = 2, height = 2, parent = None, paragraphs = []\<rparr>"
  by code_simp

theorem add_cell_first_conflict_witness:
  "fst (add_cell 0 3 corner_heap) = Inl (Occupied 1 1) \<and>
   contains_point (cell_at corner_heap 3) 1 1 \<and>
   board_get (board (table_at corner_heap 0)) 0 0 = Inr UNOCCUPIED_CELL \<and>
   board_get (board (table_at corner_heap 0)) 0 1 = Inr UNOCCUPIED_CELL \<and>
   board_get (board (table_at corner_heap 0)) 1 0 = Inr UNOCCUPIED_CELL \<and>
   board_get (board (table_at corner_heap 0)) 1 1 \<noteq> Inr UNOCCUPIED_CELL"
proof -
  note spec = add_cell_first_conflict[OF corner_overlap]
  have cp: "contains_point (cell_at corner_heap 3) col row"
    if "0 \<le> row \<and> row \<le> 1 \<and> 0 \<le> col \<and> col \<le> 1" for row col
    using that by (simp add: corner_cell_3 contains_point_def right_def bottom_def)
  have e: "board_get (board (table_at corner_heap 0)) row' col' = Inr UNOCCUPIED_CELL"
    if "contains_point (cell_at corner_heap 3) col' row'"
      "row' < 1 \<or> (row' = 1 \<and> col' < 1)" for row' col'
    using spec[THEN conjunct2, THEN conjunct2, rule_format, of col' row'] that by blast
  have a: "board_get (board (table_at corner_heap 0)) 0 0 = Inr UNOCCUPIED_CELL"
    by (rule e[OF cp]) simp_all
  have b: "board_get (board (table_at corner_heap 0)) 0 1 = Inr UNOCCUPIED_CELL"
    by (rule e[OF cp]) simp_all
  have c: "board_get (board (table_at corner_heap 0)) 1 0 = Inr UNOCCUPIED_CELL"
    by (rule e[OF cp]) simp_all
  have d: "board_get (board (table_at corner_heap 0)) 1 1 \<noteq> Inr UNOCCUPIED_CELL"
    using spec[THEN conjunct2, THEN conjunct1] by auto
  show ?thesis
    using corner_overlap spec[THEN conjunct1] a b c d by (intro conjI)
qed

text \<open>
  C4. A cell added to table 0 and then to table 1: both calls return, and the second
  replaces the cell's parent, table 0 with table 1, while both tables keep the cell in
  their cell sequences. \<^verbatim>\<open>add_cell\<close> does not test \<^verbatim>\<open>cell.parent\<close> the way
  \<^verbatim>\<open>append_paragraph\<close> tests \<^verbatim>\<open>paragraph.parent\<close>.
\<close>

theorem add_cell_reparents:
  "fst (add_cell 0 0 example_heap) = Inr 0 \<and>
   parent (cell_at (snd (add_cell 0 0 example_heap)) 0) = Some 0 \<and>
   fst (add_cell 1 0 (snd (add_cell 0 0 example_heap))) = Inr 1 \<and>
   parent (cell_at (snd (add_cell 1 0 (snd (add_cell 0 0 example_heap)))) 0) = Some 1 \<and>
   cells (table_at (snd (add_cell 1 0 (snd (add_cell 0 0 example_heap)))) 0) = [0] \<and>
   cells (table_at (snd (add_cell 1 0 (snd (add_cell 0 0 example_heap)))) 1) = [0]"
  by code_simp

end
